theory Spec2Isabelle
  imports Complex_Main "HOL-Library.Sublist"
begin

section \<open>Strings and the runtime's path library\<close>

text \<open>
  The plugin under study is \<^verbatim>\<open>plugins/netlify-hybrid-images/src/setup.js\<close> (the version
  with retry logic and the cache manifest). Strings are modelled as \<^typ>\<open>string\<close>, a text
  being the sequence of its UTF-8 bytes; every separator the code looks for (\<^verbatim>\<open>/\<close>,
  \<^verbatim>\<open>?\<close>, \<^verbatim>\<open>%\<close>, \<^verbatim>\<open>.\<close>, \<^verbatim>\<open>\\<close>) is ASCII, so searching and splitting on bytes agrees with
  searching and splitting on characters.
\<close>

text \<open>\<^verbatim>\<open>String.prototype.split\<close> with a one-character separator: the empty string
  splits into one empty piece.\<close>

fun split_on :: "char \<Rightarrow> string \<Rightarrow> string list" where
  "split_on c [] = [[]]"
| "split_on c (x # xs) =
     (let r = split_on c xs
      in if x = c then [] # r else (x # hd r) # tl r)"

text \<open>\<^verbatim>\<open>Array.prototype.join\<close>.\<close>

fun join_with :: "string \<Rightarrow> string list \<Rightarrow> string" where
  "join_with sep [] = []"
| "join_with sep [x] = x"
| "join_with sep (x # y # ys) = x @ sep @ join_with sep (y # ys)"

text \<open>
  Node's \<^verbatim>\<open>normalizeString\<close> (lib/path.js) walks the path once and keeps the result so
  far; a segment is what lies between two separators. An empty segment and \<^verbatim>\<open>.\<close> are
  dropped; \<^verbatim>\<open>..\<close> removes the last kept segment unless there is none or it is itself
  \<^verbatim>\<open>..\<close>, in which case it is kept when \<^verbatim>\<open>allowAboveRoot\<close> holds and dropped otherwise; any
  other segment is appended. The result is kept here as the list of its segments.
\<close>

definition normalize_step :: "bool \<Rightarrow> string list \<Rightarrow> string \<Rightarrow> string list" where
  "normalize_step allowAboveRoot res seg =
     (if seg = [] \<or> seg = ''.'' then res
      else if seg = ''..'' then
        (if res \<noteq> [] \<and> last res \<noteq> ''..'' then butlast res
         else if allowAboveRoot then res @ [''..'']
         else res)
      else res @ [seg])"

definition normalize_segments :: "bool \<Rightarrow> string list \<Rightarrow> string list" where
  "normalize_segments allowAboveRoot segs = foldl (normalize_step allowAboveRoot) [] segs"

definition normalizeString :: "string \<Rightarrow> bool \<Rightarrow> string" where
  "normalizeString p allowAboveRoot =
     join_with ''/'' (normalize_segments allowAboveRoot (split_on (CHR ''/'') p))"

text \<open>\<^verbatim>\<open>path.posix.normalize\<close>.\<close>

definition posix_normalize :: "string \<Rightarrow> string" where
  "posix_normalize p =
     (if p = [] then ''.''
      else
        let isAbsolute = (hd p = CHR ''/'');
            trailingSeparator = (last p = CHR ''/'');
            q = normalizeString p (\<not> isAbsolute)
        in if q = [] then (if isAbsolute then ''/'' else if trailingSeparator then ''./'' else ''.'')
           else (if isAbsolute then ''/'' else []) @ q @ (if trailingSeparator then ''/'' else []))"

text \<open>\<^verbatim>\<open>path.posix.join\<close>: the non-empty arguments joined by \<^verbatim>\<open>/\<close>, then normalised;
  \<^verbatim>\<open>.\<close> when nothing is left.\<close>

definition posix_join :: "string list \<Rightarrow> string" where
  "posix_join args =
     (let parts = filter (\<lambda>a. a \<noteq> []) args
      in if parts = [] then ''.'' else posix_normalize (join_with ''/'' parts))"

text \<open>
  \<^verbatim>\<open>path.posix.resolve\<close>, with the working directory as a parameter: the arguments are
  taken from the right until an absolute one is found, the working directory standing
  to the left of them all.
\<close>

fun resolve_scan :: "string list \<Rightarrow> string \<times> bool" where
  "resolve_scan [] = ([], False)"
| "resolve_scan (p # ps) =
     (let (resolvedPath, resolvedAbsolute) = resolve_scan ps
      in if resolvedAbsolute \<or> p = [] then (resolvedPath, resolvedAbsolute)
         else (p @ ''/'' @ resolvedPath, hd p = CHR ''/''))"

definition posix_resolve :: "string \<Rightarrow> string list \<Rightarrow> string" where
  "posix_resolve cwd args =
     (let (resolvedPath, resolvedAbsolute) = resolve_scan (cwd # args);
          q = normalizeString resolvedPath (\<not> resolvedAbsolute)
      in if resolvedAbsolute then ''/'' @ q
         else if q \<noteq> [] then q else ''.'')"

text \<open>
  The source imports the host's \<^verbatim>\<open>path\<close> module and calls its \<^verbatim>\<open>join\<close> and \<^verbatim>\<open>resolve\<close>:
  they are the POSIX functions on a POSIX host and the win32 ones on Windows. The module
  is a parameter of the model; \<open>posix_path\<close> is the module of a POSIX host whose working
  directory is \<open>cwd\<close>. (\<^verbatim>\<open>path.posix.normalize\<close> is called by that name and is the same on
  every host.)
\<close>

record path_module =
  pm_join :: "string list \<Rightarrow> string"
  pm_resolve :: "string list \<Rightarrow> string"

definition posix_path :: "string \<Rightarrow> path_module" where
  "posix_path cwd = \<lparr>pm_join = posix_join, pm_resolve = posix_resolve cwd\<rparr>"

subsection \<open>The \<^verbatim>\<open>path\<close> module of a Windows host\<close>

text \<open>
  \<^verbatim>\<open>path.win32\<close> of Node's lib/path.js. Both \<^verbatim>\<open>/\<close> and \<^verbatim>\<open>\\<close> separate segments
  (\<^verbatim>\<open>isPathSeparator\<close>), and \<^verbatim>\<open>normalizeString\<close> is the function of the POSIX module called
  with that test and the separator \<^verbatim>\<open>\\<close>.
\<close>

definition backslash :: char where
  "backslash = CHR 0x5C"

definition isPathSeparator :: "char \<Rightarrow> bool" where
  "isPathSeparator c = (c = CHR ''/'' \<or> c = backslash)"

definition isWindowsDeviceRoot :: "char \<Rightarrow> bool" where
  "isWindowsDeviceRoot c =
     (let n = (of_char c :: nat) in (65 \<le> n \<and> n \<le> 90) \<or> (97 \<le> n \<and> n \<le> 122))"

fun split_where :: "(char \<Rightarrow> bool) \<Rightarrow> string \<Rightarrow> string list" where
  "split_where sep [] = [[]]"
| "split_where sep (x # xs) =
     (let r = split_where sep xs
      in if sep x then [] # r else (x # hd r) # tl r)"

definition win32_normalizeString :: "string \<Rightarrow> bool \<Rightarrow> string" where
  "win32_normalizeString p allowAboveRoot =
     join_with [backslash] (normalize_segments allowAboveRoot (split_where isPathSeparator p))"

text \<open>
  The root of a path with at least two characters, as \<^verbatim>\<open>path.win32.normalize\<close> finds it:
  the device (a drive \<^verbatim>\<open>C:\<close> or a UNC root \<^verbatim>\<open>\\server\share\<close>) if any, where the root ends,
  and whether the path is absolute; or the result returned at once for a path that is a
  UNC root and nothing more.
\<close>

definition win32_root :: "string \<Rightarrow> string + (string option \<times> nat \<times> bool)" where
  "win32_root p =
     (if isPathSeparator (p ! 0) then
        (if isPathSeparator (p ! 1) then
           (let firstPart = takeWhile (\<lambda>c. \<not> isPathSeparator c) (drop 2 p);
                j1 = 2 + length firstPart
            in if j1 < length p \<and> j1 \<noteq> 2 then
                 (let j2 = j1 + length (takeWhile isPathSeparator (drop j1 p))
                  in if j2 < length p \<and> j2 \<noteq> j1 then
                       (let share = takeWhile (\<lambda>c. \<not> isPathSeparator c) (drop j2 p);
                            j3 = j2 + length share
                        in if j3 = length p
                           then Inl ([backslash, backslash] @ firstPart @ [backslash] @ drop j2 p
                                     @ [backslash])
                           else if j3 \<noteq> j2
                           then Inr (Some ([backslash, backslash] @ firstPart @ [backslash] @ share),
                                     j3, True)
                           else Inr (None, 0, True))
                     else Inr (None, 0, True))
               else Inr (None, 0, True))
         else Inr (None, 1, True))
      else if isWindowsDeviceRoot (p ! 0) \<and> p ! 1 = CHR '':'' then
        (if length p > 2 \<and> isPathSeparator (p ! 2) then Inr (Some (take 2 p), 3, True)
         else Inr (Some (take 2 p), 2, False))
      else Inr (None, 0, False))"

text \<open>\<^verbatim>\<open>path.win32.normalize\<close>.\<close>

definition win32_normalize :: "string \<Rightarrow> string" where
  "win32_normalize p =
     (if p = [] then ''.''
      else if length p = 1 then (if hd p = CHR ''/'' then [backslash] else p)
      else
        (case win32_root p of
           Inl unc \<Rightarrow> unc
         | Inr (device, rootEnd, isAbsolute) \<Rightarrow>
             let tail0 = (if rootEnd < length p
                          then win32_normalizeString (drop rootEnd p) (\<not> isAbsolute) else []);
                 tail1 = (if tail0 = [] \<and> \<not> isAbsolute then ''.'' else tail0);
                 tail = (if tail1 \<noteq> [] \<and> isPathSeparator (last p) then tail1 @ [backslash]
                         else tail1)
             in (case device of
                   None \<Rightarrow> (if isAbsolute then [backslash] @ tail else tail)
                 | Some d \<Rightarrow> (if isAbsolute then d @ [backslash] @ tail else d @ tail))))"

text \<open>
  \<^verbatim>\<open>path.win32.join\<close>: the non-empty arguments joined by \<^verbatim>\<open>\\<close>; leading separators are
  reduced to one unless the first argument begins like a UNC path (two separators and
  then another character); the result is normalised.
\<close>

definition win32_join :: "string list \<Rightarrow> string" where
  "win32_join args =
     (let parts = filter (\<lambda>a. a \<noteq> []) args
      in if parts = [] then ''.''
         else
           let joined = join_with [backslash] parts;
               firstPart = hd parts;
               (needsReplace, slashCount0) =
                 (if isPathSeparator (hd firstPart) then
                    (if length firstPart > 1 \<and> isPathSeparator (firstPart ! 1) then
                       (if length firstPart > 2
                        then (if isPathSeparator (firstPart ! 2) then (True, 3) else (False, 2))
                        else (True, 2))
                     else (True, 1))
                  else (True, 0::nat));
               slashCount = slashCount0 + length (takeWhile isPathSeparator (drop slashCount0 joined))
           in win32_normalize
                (if needsReplace \<and> slashCount \<ge> 2 then [backslash] @ drop slashCount joined
                 else joined))"

text \<open>The module of a Windows host. The resolver calls \<^verbatim>\<open>join\<close> only; \<^verbatim>\<open>resolve\<close>, which
  depends on the working directory of each drive, is left as a parameter.\<close>

definition win32_path :: "(string list \<Rightarrow> string) \<Rightarrow> path_module" where
  "win32_path resolve = \<lparr>pm_join = win32_join, pm_resolve = resolve\<rparr>"

text \<open>A Windows path lies under a directory when the segments the directory normalises
  to are the first segments the path normalises to.\<close>

definition win32_lies_under :: "string \<Rightarrow> string \<Rightarrow> bool" where
  "win32_lies_under dir p =
     prefix (split_where isPathSeparator (win32_normalize dir))
            (split_where isPathSeparator (win32_normalize p))"

text \<open>
  What it means for a POSIX path to lie under a directory: both are absolute or both are
  relative, and the segments the directory normalises to are the first segments the path
  normalises to.
\<close>

definition is_absolute :: "string \<Rightarrow> bool" where
  "is_absolute p = (p \<noteq> [] \<and> hd p = CHR ''/'')"

definition path_stack :: "string \<Rightarrow> string list" where
  "path_stack p = normalize_segments (\<not> is_absolute p) (split_on (CHR ''/'') p)"

definition lies_under :: "string \<Rightarrow> string \<Rightarrow> bool" where
  "lies_under dir p = ((is_absolute dir = is_absolute p) \<and> prefix (path_stack dir) (path_stack p))"

text \<open>
  The shape of a normalised segment list: some \<^verbatim>\<open>..\<close> first (none when the path is
  absolute), then plain names only.
\<close>

definition plain :: "string \<Rightarrow> bool" where
  "plain s = (s \<noteq> [] \<and> s \<noteq> ''.'' \<and> s \<noteq> ''..'' \<and> CHR ''/'' \<notin> set s)"

definition normal_stack :: "bool \<Rightarrow> string list \<Rightarrow> bool" where
  "normal_stack allow st = (\<exists>k rest. st = replicate k ''..'' @ rest \<and> (\<forall>s \<in> set rest. plain s) \<and> (\<not> allow \<longrightarrow> k = 0))"

subsection \<open>\<^verbatim>\<open>decodeURIComponent\<close>\<close>

text \<open>
  ECMAScript's \<^verbatim>\<open>Decode\<close> with an empty reserved set: every \<^verbatim>\<open>%XX\<close> is an octet, an
  octet below 128 is that character, a larger one must start a well-formed UTF-8
  sequence whose remaining octets are escapes too; anything else throws \<^verbatim>\<open>URIError\<close>,
  which is \<open>None\<close> here. On UTF-8 bytes the decoded character is the octets themselves.
\<close>

definition hex_val :: "char \<Rightarrow> nat option" where
  "hex_val c =
     (let n = (of_char c :: nat)
      in if 48 \<le> n \<and> n \<le> 57 then Some (n - 48)
         else if 65 \<le> n \<and> n \<le> 70 then Some (n - 55)
         else if 97 \<le> n \<and> n \<le> 102 then Some (n - 87)
         else None)"

datatype uri_token = Octet nat | Literal char

fun uri_tokens :: "string \<Rightarrow> uri_token list option" where
  "uri_tokens [] = Some []"
| "uri_tokens (c # cs) =
     (if c = CHR ''%'' then
        (case cs of
           a # b # rest \<Rightarrow>
             (case (hex_val a, hex_val b) of
                (Some x, Some y) \<Rightarrow> map_option ((#) (Octet (16 * x + y))) (uri_tokens rest)
              | _ \<Rightarrow> None)
         | _ \<Rightarrow> None)
      else map_option ((#) (Literal c)) (uri_tokens cs))"

definition in_range :: "nat \<Rightarrow> nat \<Rightarrow> nat \<Rightarrow> bool" where
  "in_range lo hi b = (lo \<le> b \<and> b \<le> hi)"

text \<open>The well-formed UTF-8 byte sequences (Unicode, table 3-7) that start with \<open>b\<close>.\<close>

fun utf8_decode :: "uri_token list \<Rightarrow> string option" where
  "utf8_decode [] = Some []"
| "utf8_decode (Literal c # ts) = map_option ((#) c) (utf8_decode ts)"
| "utf8_decode (Octet b # ts) =
     (if b < 128 then map_option ((#) (char_of b)) (utf8_decode ts)
      else if in_range 194 223 b then
        (case ts of
           Octet b1 # r \<Rightarrow>
             if in_range 128 191 b1
             then map_option ((@) (map char_of [b, b1])) (utf8_decode r) else None
         | _ \<Rightarrow> None)
      else if in_range 224 239 b then
        (case ts of
           Octet b1 # Octet b2 # r \<Rightarrow>
             if in_range (if b = 224 then 160 else 128) (if b = 237 then 159 else 191) b1
                \<and> in_range 128 191 b2
             then map_option ((@) (map char_of [b, b1, b2])) (utf8_decode r) else None
         | _ \<Rightarrow> None)
      else if in_range 240 244 b then
        (case ts of
           Octet b1 # Octet b2 # Octet b3 # r \<Rightarrow>
             if in_range (if b = 240 then 144 else 128) (if b = 244 then 143 else 191) b1
                \<and> in_range 128 191 b2 \<and> in_range 128 191 b3
             then map_option ((@) (map char_of [b, b1, b2, b3])) (utf8_decode r) else None
         | _ \<Rightarrow> None)
      else None)"

definition decodeURIComponent :: "string \<Rightarrow> string option" where
  "decodeURIComponent s = (case uri_tokens s of None \<Rightarrow> None | Some ts \<Rightarrow> utf8_decode ts)"

section \<open>The path resolver\<close>

record media_path =
  cacheKey :: string
  remoteUrl :: string
  downloadUrl :: string
  filePath :: string
  localPath :: string
  localPathWithQuery :: string

record media_context =
  mediaPrefix :: string
  mediaDir :: string
  mediaOutputDir :: string

datatype js_error = URIError | TypeError

text \<open>
  \<^verbatim>\<open>resolveMediaPath\<close>. \<open>Inr None\<close> is the \<^verbatim>\<open>null\<close> it returns, \<open>Inl URIError\<close> the
  exception \<^verbatim>\<open>decodeURIComponent\<close> throws on a malformed escape. The destructuring
  \<^verbatim>\<open>[rawPath, query = ''] = remainder.split('?')\<close> takes the first two pieces of the
  split and drops the others. \<open>host\<close> is the host's \<^verbatim>\<open>path\<close> module.
\<close>

definition resolveMediaPath ::
  "path_module \<Rightarrow> string \<Rightarrow> media_context \<Rightarrow> js_error + media_path option" where
  "resolveMediaPath host url ctx =
     (if \<not> prefix (mediaPrefix ctx) url then Inr None
      else
        let remainder = drop (length (mediaPrefix ctx)) url;
            pieces = split_on (CHR ''?'') remainder;
            rawPath = hd pieces;
            query = (case tl pieces of [] \<Rightarrow> [] | q # _ \<Rightarrow> q)
        in if rawPath = [] then Inr None
           else
             (case decodeURIComponent rawPath of
                None \<Rightarrow> Inl URIError
              | Some decodedPath \<Rightarrow>
                  let posixPath = posix_normalize decodedPath
                  in if prefix ''../'' posixPath \<or> sublist [CHR ''.'', CHR ''.'', CHR 0x5C] posixPath
                        \<or> posixPath = ''..''
                     then Inr None
                     else
                       let segments = filter (\<lambda>s. s \<noteq> []) (split_on (CHR ''/'') posixPath)
                       in if segments = [] then Inr None
                          else
                            let filePath = pm_join host (mediaOutputDir ctx # segments);
                                localPath = ''/'' @ join_with ''/'' (mediaDir ctx # segments);
                                localPathWithQuery =
                                  (if query \<noteq> [] then localPath @ ''?'' @ query else localPath)
                            in Inr (Some \<lparr>cacheKey = mediaDir ctx @ ''/'' @ join_with ''/'' segments,
                                         remoteUrl = url,
                                         downloadUrl = mediaPrefix ctx @ rawPath,
                                         filePath = filePath,
                                         localPath = localPath,
                                         localPathWithQuery = localPathWithQuery\<rparr>)))"

section \<open>The fetcher\<close>

text \<open>
  A JavaScript object holding scalars is a map from property names to values; an own
  property may hold \<^verbatim>\<open>undefined\<close>. Object spread \<^verbatim>\<open>{...a, ...b}\<close> is \<open>a ++ b\<close>. Cache
  entries are such objects, as the plugin itself writes them.
\<close>

datatype jsval = Undefined | Null | Bool bool | Num nat | Str string

type_synonym metadata = "string \<rightharpoonup> jsval"

fun truthy :: "jsval option \<Rightarrow> bool" where
  "truthy None = False"
| "truthy (Some Undefined) = False"
| "truthy (Some Null) = False"
| "truthy (Some (Bool b)) = b"
| "truthy (Some (Num n)) = (n \<noteq> 0)"
| "truthy (Some (Str s)) = (s \<noteq> [])"

text \<open>An asset of the work list: the resolver's record with the cached entry, \<open>None\<close>
  being \<^verbatim>\<open>null\<close>.\<close>

record asset = media_path +
  metadata :: "metadata option"

datatype outcome = Downloaded | Skipped | Failed

text \<open>What \<^verbatim>\<open>downloadAsset\<close> returns: \<^verbatim>\<open>{ status, metadata }\<close>, the metadata absent on
  failure.\<close>

record download_result =
  status :: outcome
  result_metadata :: "metadata option"

text \<open>
  What one attempt observes. An exception raised inside the \<^verbatim>\<open>try\<close> block before a
  response is seen (the directory cannot be created, \<^verbatim>\<open>fetch\<close> rejects, the timeout
  aborts the request) is \<open>Rejects\<close>; a response comes with its status line, the two
  validator headers and what reading the body and writing the file gives: the bytes
  written, or the exception raised by \<^verbatim>\<open>arrayBuffer\<close> or \<^verbatim>\<open>writeFile\<close>.
\<close>

record thrown =
  error_name :: string
  error_message :: string

record response =
  http_status :: nat
  statusText :: string
  etag_header :: "string option"
  last_modified_header :: "string option"

datatype attempt_obs = Rejects thrown | Responds response "thrown + string"

text \<open>What a run of \<^verbatim>\<open>downloadAsset\<close> does besides returning: the headers of each request
  sent, the delays slept, the contents written to \<^verbatim>\<open>asset.filePath\<close>.\<close>

text \<open>
  A JavaScript number is an IEEE double. The model keeps the doubles of integer value,
  the two infinities and NaN (the delay and its factor are counts of milliseconds and
  of attempts); \<open>Finite z\<close> is the double whose value is \<open>z\<close>. The product of two doubles
  is the exact product rounded to the nearest double, ties to the even mantissa, and to
  an infinity from \<open>2 ^ 1024\<close> on.
\<close>

datatype jsnum = Finite int | PosInf | NegInf | NaN

function bit_length :: "int \<Rightarrow> nat" where
  "bit_length n = (if n \<le> 0 then 0 else Suc (bit_length (n div 2)))"
  by pat_completeness auto
termination
  by (relation "measure nat") auto

definition round_double :: "int \<Rightarrow> jsnum" where
  "round_double z =
     (let a = \<bar>z\<bar>
      in if a < 2 ^ 53 then Finite z
         else
           let e = bit_length a - 53;
               q = a div 2 ^ e;
               r = a mod 2 ^ e;
               q' = (if 2 * r > 2 ^ e \<or> (2 * r = 2 ^ e \<and> odd q) then q + 1 else q);
               m = q' * 2 ^ e
           in if m \<ge> 2 ^ 1024 then (if z < 0 then NegInf else PosInf)
              else Finite (if z < 0 then - m else m))"

definition js_sign :: "jsnum \<Rightarrow> int" where
  "js_sign x = (case x of Finite z \<Rightarrow> sgn z | PosInf \<Rightarrow> 1 | NegInf \<Rightarrow> - 1 | NaN \<Rightarrow> 0)"

definition js_mul :: "jsnum \<Rightarrow> jsnum \<Rightarrow> jsnum" where
  "js_mul x y =
     (case (x, y) of
        (Finite a, Finite b) \<Rightarrow> round_double (a * b)
      | _ \<Rightarrow>
          if x = NaN \<or> y = NaN \<or> js_sign x * js_sign y = 0 then NaN
          else if js_sign x * js_sign y > 0 then PosInf
          else NegInf)"

text \<open>The comparison \<^verbatim>\<open><\<close> of two numbers, and the truth value of a number.\<close>

definition js_less :: "jsnum \<Rightarrow> jsnum \<Rightarrow> bool" where
  "js_less x y =
     (case (x, y) of
        (Finite a, Finite b) \<Rightarrow> a < b
      | (Finite a, PosInf) \<Rightarrow> True
      | (NegInf, Finite b) \<Rightarrow> True
      | (NegInf, PosInf) \<Rightarrow> True
      | _ \<Rightarrow> False)"

definition js_falsy :: "jsnum \<Rightarrow> bool" where
  "js_falsy x = (x = Finite 0 \<or> x = NaN)"

text \<open>
  How long Node's \<^verbatim>\<open>setTimeout(f, delay)\<close> waits, in milliseconds: a delay that is not
  between 1 and \<open>2 ^ 31 - 1\<close> is replaced by 1.
\<close>

definition timer_ms :: "jsnum \<Rightarrow> int" where
  "timer_ms delay =
     (case delay of
        Finite z \<Rightarrow> if 1 \<le> z \<and> z \<le> 2147483647 then z else 1
      | _ \<Rightarrow> 1)"

text \<open>In a trace, \<open>sleeps\<close> are the delays handed to \<^verbatim>\<open>setTimeout\<close>, in order.\<close>

record trace =
  requests :: "(string \<times> jsval) list option list"
  sleeps :: "jsnum list"
  writes :: "string list"

definition empty_trace :: trace where
  "empty_trace = \<lparr>requests = [], sleeps = [], writes = []\<rparr>"

datatype step = Return download_result | Retry jsnum

text \<open>Decimal rendering of a number inside a template string.\<close>

function decimal :: "nat \<Rightarrow> string" where
  "decimal n = (if n < 10 then [char_of (48 + n)] else decimal (n div 10) @ [char_of (48 + n mod 10)])"
  by pat_completeness auto
termination
  by (relation "measure id") auto

definition http_error :: "response \<Rightarrow> thrown" where
  "http_error r =
     \<lparr>error_name = ''Error'',
      error_message = ''HTTP '' @ decimal (http_status r) @ '' '' @ statusText r\<rparr>"

text \<open>The \<^verbatim>\<open>catch\<close> block of one attempt. The delay is the product
  \<^verbatim>\<open>retryDelay * attempt\<close> of two numbers.\<close>

definition catch_block :: "int \<Rightarrow> jsnum \<Rightarrow> int \<Rightarrow> thrown \<Rightarrow> step" where
  "catch_block maxRetries retryDelay attempt error =
     (let isTimeout = (error_name error = ''AbortError'');
          isRetriable =
            (isTimeout
             \<or> sublist ''socket hang up'' (error_message error)
             \<or> sublist ''ECONNRESET'' (error_message error)
             \<or> sublist ''ETIMEDOUT'' (error_message error)
             \<or> sublist ''ECONNREFUSED'' (error_message error))
      in if isRetriable \<and> attempt < maxRetries then Retry (js_mul retryDelay (Finite attempt))
         else Return \<lparr>status = Failed, result_metadata = None\<rparr>)"

definition header_value :: "string option \<Rightarrow> jsval" where
  "header_value h = (case h of None \<Rightarrow> Undefined | Some s \<Rightarrow> if s = [] then Undefined else Str s)"

text \<open>The \<^verbatim>\<open>try\<close> block of one attempt, after the request has been sent: the step taken
  and the file content written, if any. \<open>now\<close> is the clock read by \<^verbatim>\<open>new Date()\<close>.\<close>

definition try_block ::
  "asset \<Rightarrow> int \<Rightarrow> jsnum \<Rightarrow> int \<Rightarrow> string \<Rightarrow> attempt_obs \<Rightarrow> step \<times> string option" where
  "try_block a maxRetries retryDelay attempt now obs =
     (case obs of
        Rejects e \<Rightarrow> (catch_block maxRetries retryDelay attempt e, None)
      | Responds r body \<Rightarrow>
          if http_status r = 304 then
            (Return \<lparr>status = Skipped,
                     result_metadata =
                       Some ((case metadata a of None \<Rightarrow> Map.empty | Some m \<Rightarrow> m)
                               (''checkedAt'' \<mapsto> Str now))\<rparr>, None)
          else if \<not> (200 \<le> http_status r \<and> http_status r \<le> 299) then
            (if 400 \<le> http_status r \<and> http_status r < 500 \<and> http_status r \<noteq> 429
             then (catch_block maxRetries retryDelay attempt (http_error r), None)
             else if attempt < maxRetries then (Retry (js_mul retryDelay (Finite attempt)), None)
             else (catch_block maxRetries retryDelay attempt (http_error r), None))
          else
            (case body of
               Inl e \<Rightarrow> (catch_block maxRetries retryDelay attempt e, None)
             | Inr bytes \<Rightarrow>
                 (Return \<lparr>status = Downloaded,
                          result_metadata =
                            Some [''etag'' \<mapsto> header_value (etag_header r),
                                  ''lastModified'' \<mapsto> header_value (last_modified_header r),
                                  ''size'' \<mapsto> Num (length bytes),
                                  ''downloadedAt'' \<mapsto> Str now,
                                  ''checkedAt'' \<mapsto> Str now]\<rparr>,
                  Some bytes)))"

text \<open>The conditional headers, computed once before the loop.\<close>

definition shouldUseConditional :: "asset \<Rightarrow> bool \<Rightarrow> bool \<Rightarrow> bool" where
  "shouldUseConditional a fileExists skipUnchanged =
     (let hasMetadata =
            (case metadata a of
               None \<Rightarrow> False
             | Some m \<Rightarrow> truthy (m ''etag'') \<or> truthy (m ''lastModified''))
      in skipUnchanged \<and> fileExists \<and> hasMetadata)"

definition request_headers :: "asset \<Rightarrow> bool \<Rightarrow> bool \<Rightarrow> (string \<times> jsval) list option" where
  "request_headers a fileExists skipUnchanged =
     (if shouldUseConditional a fileExists skipUnchanged then
        (case metadata a of
           None \<Rightarrow> Some []
         | Some m \<Rightarrow>
             Some ((if truthy (m ''etag'') then [(''If-None-Match'', the (m ''etag''))] else [])
                   @ (if truthy (m ''lastModified'')
                      then [(''If-Modified-Since'', the (m ''lastModified''))] else [])))
      else None)"

text \<open>
  The loop \<^verbatim>\<open>for (attempt = 1; attempt <= maxRetries; attempt++)\<close>. \<open>net\<close> gives what each
  attempt observes and \<open>clock\<close> the time at each attempt; the per-attempt timeout shows
  only as the \<^verbatim>\<open>AbortError\<close> an attempt may observe.
\<close>

function attempt_loop ::
  "asset \<Rightarrow> (string \<times> jsval) list option \<Rightarrow> int \<Rightarrow> jsnum \<Rightarrow> (int \<Rightarrow> attempt_obs) \<Rightarrow> (int \<Rightarrow> string)
     \<Rightarrow> int \<Rightarrow> trace \<Rightarrow> download_result \<times> trace" where
  "attempt_loop a headers maxRetries retryDelay net clock attempt tr =
     (if attempt \<le> maxRetries then
        (let (st, written) = try_block a maxRetries retryDelay attempt (clock attempt) (net attempt);
             tr1 = tr\<lparr>requests := requests tr @ [headers],
                      writes := writes tr @ (case written of None \<Rightarrow> [] | Some b \<Rightarrow> [b])\<rparr>
         in case st of
              Return res \<Rightarrow> (res, tr1)
            | Retry delay \<Rightarrow>
                attempt_loop a headers maxRetries retryDelay net clock (attempt + 1)
                  (tr1\<lparr>sleeps := sleeps tr1 @ [delay]\<rparr>))
      else (\<lparr>status = Failed, result_metadata = None\<rparr>, tr))"
  by pat_completeness auto
termination
  by (relation "measure (\<lambda>(a, h, maxRetries, d, net, clock, attempt, tr). nat (maxRetries + 1 - attempt))")
     auto

definition downloadAsset ::
  "asset \<Rightarrow> bool \<Rightarrow> int \<Rightarrow> jsnum \<Rightarrow> bool \<Rightarrow> (int \<Rightarrow> attempt_obs) \<Rightarrow> (int \<Rightarrow> string)
     \<Rightarrow> download_result \<times> trace" where
  "downloadAsset a fileExists maxRetries retryDelay skipUnchanged net clock =
     attempt_loop a (request_headers a fileExists skipUnchanged) maxRetries retryDelay net clock 1
       empty_trace"

section \<open>Content documents\<close>

text \<open>
  A parsed document. An object is the list of its entries in the order
  \<^verbatim>\<open>Object.entries\<close> gives them. \<^verbatim>\<open>JSON.parse\<close> builds a tree (no node is shared), so the
  in-place updates of an array or an object are modelled by returning the updated tree.
\<close>

datatype json =
    JNull
  | JBool bool
  | JNumber rat
  | JString string
  | JArray "json list"
  | JObject "(string \<times> json) list"

text \<open>
  \<^verbatim>\<open>transformContent\<close>. The transformer may read and update a state of its own (the
  asset map of the scanning pass) and may throw. The boolean carried along with that
  state is the variable \<^verbatim>\<open>modified\<close> that the closure \<^verbatim>\<open>visit\<close> shares over the whole
  traversal; the boolean returned with a value is \<^verbatim>\<open>result.modified\<close>.
\<close>

fun visit ::
    "(string \<Rightarrow> 's \<Rightarrow> (js_error + string) \<times> 's) \<Rightarrow> json \<Rightarrow> bool \<times> 's
       \<Rightarrow> (js_error + json \<times> bool) \<times> bool \<times> 's"
  and visit_items ::
    "(string \<Rightarrow> 's \<Rightarrow> (js_error + string) \<times> 's) \<Rightarrow> json list \<Rightarrow> bool \<times> 's
       \<Rightarrow> (js_error + json list) \<times> bool \<times> 's"
  and visit_entries ::
    "(string \<Rightarrow> 's \<Rightarrow> (js_error + string) \<times> 's) \<Rightarrow> (string \<times> json) list \<Rightarrow> bool \<times> 's
       \<Rightarrow> (js_error + (string \<times> json) list) \<times> bool \<times> 's"
where
  "visit f (JArray xs) st =
     (case visit_items f xs st of
        (Inl e, st') \<Rightarrow> (Inl e, st')
      | (Inr xs', (m', s')) \<Rightarrow> (Inr (JArray xs', m'), (m', s')))"
| "visit f (JObject kvs) st =
     (case visit_entries f kvs st of
        (Inl e, st') \<Rightarrow> (Inl e, st')
      | (Inr kvs', (m', s')) \<Rightarrow> (Inr (JObject kvs', m'), (m', s')))"
| "visit f (JString str) st =
     (case f str (snd st) of
        (Inl e, s') \<Rightarrow> (Inl e, (fst st, s'))
      | (Inr transformed, s') \<Rightarrow>
          if transformed \<noteq> str then (Inr (JString transformed, True), (True, s'))
          else (Inr (JString str, False), (fst st, s')))"
| "visit f JNull st = (Inr (JNull, False), st)"
| "visit f (JBool b) st = (Inr (JBool b, False), st)"
| "visit f (JNumber n) st = (Inr (JNumber n, False), st)"
| "visit_items f [] st = (Inr [], st)"
| "visit_items f (x # xs) st =
     (case visit f x st of
        (Inl e, st') \<Rightarrow> (Inl e, st')
      | (Inr (v, r), (m', s')) \<Rightarrow>
          (case visit_items f xs (m' \<or> r, s') of
             (Inl e, st'') \<Rightarrow> (Inl e, st'')
           | (Inr vs, st'') \<Rightarrow> (Inr (v # vs), st'')))"
| "visit_entries f [] st = (Inr [], st)"
| "visit_entries f (kv # kvs) st =
     (case visit f (snd kv) st of
        (Inl e, st') \<Rightarrow> (Inl e, st')
      | (Inr (v, r), (m', s')) \<Rightarrow>
          (case visit_entries f kvs (m' \<or> r, s') of
             (Inl e, st'') \<Rightarrow> (Inl e, st'')
           | (Inr vs, st'') \<Rightarrow> (Inr ((fst kv, v) # vs), st'')))"

text \<open>
  The function ends with \<^verbatim>\<open>visit(value); return { value, modified }\<close>: what \<^verbatim>\<open>visit\<close>
  returns is dropped, and the value returned is the argument. An array or an object has
  been updated in place; a document that is a bare string is returned as it was, whatever
  the transformer made of it, with \<^verbatim>\<open>modified\<close> set.
\<close>

definition transformContent ::
  "(string \<Rightarrow> 's \<Rightarrow> (js_error + string) \<times> 's) \<Rightarrow> json \<Rightarrow> 's \<Rightarrow> (js_error + json \<times> bool) \<times> 's" where
  "transformContent transformer v s =
     (case visit transformer v (False, s) of
        (Inl e, (m, s')) \<Rightarrow> (Inl e, s')
      | (Inr (v', r), (m, s')) \<Rightarrow>
          (Inr (case v of JString str \<Rightarrow> v | _ \<Rightarrow> v', m), s'))"

text \<open>The strings of a document, in the order the traversal meets them.\<close>

fun strings_of :: "json \<Rightarrow> string list"
  and strings_of_items :: "json list \<Rightarrow> string list"
  and strings_of_entries :: "(string \<times> json) list \<Rightarrow> string list"
where
  "strings_of (JString str) = [str]"
| "strings_of (JArray xs) = strings_of_items xs"
| "strings_of (JObject kvs) = strings_of_entries kvs"
| "strings_of JNull = []"
| "strings_of (JBool b) = []"
| "strings_of (JNumber n) = []"
| "strings_of_items [] = []"
| "strings_of_items (x # xs) = strings_of x @ strings_of_items xs"
| "strings_of_entries [] = []"
| "strings_of_entries (kv # kvs) = strings_of (snd kv) @ strings_of_entries kvs"

section \<open>The content scanner\<close>

text \<open>The asset map is a JavaScript \<^verbatim>\<open>Map\<close>: its entries in insertion order, keys
  distinct. The manifest is an object whose entries are cache entries.\<close>

type_synonym asset_map = "(string \<times> asset) list"
type_synonym manifest = "string \<rightharpoonup> metadata"

definition map_has :: "(string \<times> 'v) list \<Rightarrow> string \<Rightarrow> bool" where
  "map_has m k = (k \<in> fst ` set m)"

text \<open>\<^verbatim>\<open>Map.prototype.set\<close>: an existing key keeps its place.\<close>

definition map_set :: "(string \<times> 'v) list \<Rightarrow> string \<Rightarrow> 'v \<Rightarrow> (string \<times> 'v) list" where
  "map_set m k v =
     (if map_has m k then map (\<lambda>kv. if fst kv = k then (k, v) else kv) m else m @ [(k, v)])"

text \<open>\<^verbatim>\<open>Set.prototype.add\<close>.\<close>

definition set_add :: "string list \<Rightarrow> string \<Rightarrow> string list" where
  "set_add xs k = (if k \<in> set xs then xs else xs @ [k])"

text \<open>The transformer of the scanning pass. \<open>man\<close> holds the entries of the loaded manifest
  when a manifest path is configured and is \<open>None\<close> otherwise.\<close>

definition scan_transformer ::
  "path_module \<Rightarrow> media_context \<Rightarrow> manifest option \<Rightarrow> string \<Rightarrow> asset_map
     \<Rightarrow> (js_error + string) \<times> asset_map" where
  "scan_transformer host ctx man v assetMap =
     (case resolveMediaPath host v ctx of
        Inl e \<Rightarrow> (Inl e, assetMap)
      | Inr None \<Rightarrow> (Inr v, assetMap)
      | Inr (Some match) \<Rightarrow>
          (Inr v,
           if \<not> map_has assetMap (cacheKey match) then
             (let cachedMetadata = (case man of None \<Rightarrow> None | Some m \<Rightarrow> m (cacheKey match))
              in map_set assetMap (cacheKey match)
                   (media_path.extend match \<lparr>metadata = cachedMetadata\<rparr>))
           else assetMap))"

text \<open>
  The loop over the JSON files. A file comes with what reading and parsing it gives,
  \<open>None\<close> when either fails. An exception inside the traversal is caught by the same
  handler: the file is skipped, what the traversal had put in the asset map stays.
\<close>

fun scan_files ::
  "path_module \<Rightarrow> media_context \<Rightarrow> manifest option \<Rightarrow> (string \<times> json option) list
     \<Rightarrow> asset_map \<times> (string \<times> json) list \<Rightarrow> asset_map \<times> (string \<times> json) list" where
  "scan_files host ctx man [] acc = acc"
| "scan_files host ctx man ((path, None) # fs) acc = scan_files host ctx man fs acc"
| "scan_files host ctx man ((path, Some data) # fs) (assetMap, fileEntries) =
     (case transformContent (scan_transformer host ctx man) data assetMap of
        (Inl e, assetMap') \<Rightarrow> scan_files host ctx man fs (assetMap', fileEntries)
      | (Inr (data', m), assetMap') \<Rightarrow>
          scan_files host ctx man fs (assetMap', fileEntries @ [(path, data')]))"

text \<open>An asset map is well keyed when its keys are distinct and every asset sits under
  its own cache key.\<close>

definition well_keyed :: "asset_map \<Rightarrow> bool" where
  "well_keyed am \<longleftrightarrow> distinct (map fst am) \<and> (\<forall>ka \<in> set am. cacheKey (snd ka) = fst ka)"

text \<open>A URL is registered in an asset map when the key it resolves to, if it resolves, is
  a key of the map.\<close>

definition registered :: "path_module \<Rightarrow> media_context \<Rightarrow> string \<Rightarrow> asset_map \<Rightarrow> bool" where
  "registered host ctx url am \<longleftrightarrow>
     (\<forall>m. resolveMediaPath host url ctx = Inr (Some m) \<longrightarrow> map_has am (cacheKey m))"

section \<open>The scheduler\<close>

text \<open>
  What the workers meet outside the program: whether \<^verbatim>\<open>asset.filePath\<close> exists when the
  download of an asset starts, what each attempt for it observes, and the clock.
  Every asset is claimed once, so a run fixes these functions.
\<close>

record world =
  file_exists :: "asset \<Rightarrow> bool"
  observes :: "asset \<Rightarrow> int \<Rightarrow> attempt_obs"
  clock_at :: "asset \<Rightarrow> int \<Rightarrow> string"

text \<open>A worker is suspended in \<^verbatim>\<open>await downloadAsset(assets[i])\<close> or has left its loop.\<close>

datatype worker = Awaiting nat | Exited

record pool =
  index :: nat
  success :: nat
  skipped :: nat
  failed :: nat
  manifestUpdates :: "(string \<times> metadata) list"
  manifestRemovals :: "string list"
  workers :: "worker list"
  completed :: "(nat \<times> download_result \<times> trace) list"

record download_params =
  p_maxRetries :: int
  p_retryDelay :: jsnum
  p_skipUnchanged :: bool

text \<open>
  The head of a worker's loop, run without suspension: \<^verbatim>\<open>while (index < assets.length)\<close>,
  \<^verbatim>\<open>currentIndex = index++\<close>, then the call that suspends. The guard \<^verbatim>\<open>if (!asset) break\<close>
  never fires, an element of the list being an object.
\<close>

definition claim :: "asset list \<Rightarrow> pool \<Rightarrow> worker \<times> pool" where
  "claim assets p =
     (if index p < length assets then (Awaiting (index p), p\<lparr>index := index p + 1\<rparr>)
      else (Exited, p))"

text \<open>\<^verbatim>\<open>Array.from({ length }, ...)\<close> starts the workers one after the other; each runs up to
  its first \<^verbatim>\<open>await\<close>.\<close>

fun spawn :: "asset list \<Rightarrow> nat \<Rightarrow> pool \<Rightarrow> pool" where
  "spawn assets 0 p = p"
| "spawn assets (Suc k) p =
     (let (w, p') = claim assets p in spawn assets k (p'\<lparr>workers := workers p' @ [w]\<rparr>))"

text \<open>The body of the loop after the download of \<open>assets ! i\<close> has returned to worker
  \<open>w\<close>, up to the worker's next suspension or exit; \<open>fetch_asset\<close> is the call of
  \<^verbatim>\<open>downloadAsset\<close> in the given world. The log \<open>completed\<close> is not in the source: it records
  which download returned what, in the order of return.\<close>

definition fetch_asset :: "download_params \<Rightarrow> world \<Rightarrow> asset \<Rightarrow> download_result \<times> trace" where
  "fetch_asset P wd a =
     downloadAsset a (file_exists wd a) (p_maxRetries P) (p_retryDelay P) (p_skipUnchanged P)
       (observes wd a) (clock_at wd a)"

definition resume :: "asset list \<Rightarrow> download_params \<Rightarrow> world \<Rightarrow> nat \<Rightarrow> nat \<Rightarrow> pool \<Rightarrow> pool" where
  "resume assets P wd w i p =
     (let a = assets ! i;
          (result, tr) = fetch_asset P wd a;
          p1 = (if status result = Downloaded then p\<lparr>success := success p + 1\<rparr>
                else if status result = Skipped then p\<lparr>skipped := skipped p + 1\<rparr>
                else p\<lparr>failed := failed p + 1\<rparr>);
          p2 = (case result_metadata result of
                  None \<Rightarrow> p1
                | Some md \<Rightarrow>
                    p1\<lparr>manifestUpdates :=
                         map_set (manifestUpdates p1) (cacheKey a)
                           (md(''remoteUrl'' \<mapsto> Str (remoteUrl a),
                               ''localPath'' \<mapsto> Str (localPath a)))\<rparr>);
          p3 = (if status result = Failed
                then p2\<lparr>manifestRemovals := set_add (manifestRemovals p2) (cacheKey a)\<rparr>
                else p2);
          p4 = p3\<lparr>completed := completed p3 @ [(i, result, tr)]\<rparr>;
          (w', p5) = claim assets p4
      in p5\<lparr>workers := (workers p5)[w := w']\<rparr>)"

definition awaiting :: "pool \<Rightarrow> nat list" where
  "awaiting p = filter (\<lambda>w. workers p ! w \<noteq> Exited) [0..<length (workers p)]"

text \<open>
  The event loop: while some worker is suspended, the download of one of them returns.
  Which one is the choice of the outside world, given here by \<open>sched\<close>, a function of
  the pool's state; every interleaving is the run under some \<open>sched\<close>.
\<close>

function run_pool ::
  "(pool \<Rightarrow> nat) \<Rightarrow> asset list \<Rightarrow> download_params \<Rightarrow> world \<Rightarrow> pool \<Rightarrow> pool" where
  "run_pool sched assets P wd p =
     (if awaiting p = [] then p
      else
        (let w = awaiting p ! (sched p mod length (awaiting p))
         in case workers p ! w of
              Awaiting i \<Rightarrow> run_pool sched assets P wd (resume assets P wd w i p)
            | Exited \<Rightarrow> p))"
  by pat_completeness auto

termination
proof (relation "measure (\<lambda>(sched, assets, P, wd, p).
                   2 * (length assets - index p) + length (awaiting p))", goal_cases)
  case 1
  show ?case by simp
next
  case (2 sched assets P wd p w i)
  let ?live = "\<lambda>ws. {v. v < length (workers p) \<and> ws ! v \<noteq> Exited}"
  have len: "length (awaiting q) = card {v. v < length (workers q) \<and> workers q ! v \<noteq> Exited}" for q
  proof -
    have "distinct (awaiting q)" by (simp add: awaiting_def)
    moreover have "set (awaiting q) = {v. v < length (workers q) \<and> workers q ! v \<noteq> Exited}"
      by (auto simp: awaiting_def)
    ultimately show ?thesis using distinct_card[of "awaiting q"] by simp
  qed
  have fields:
    "index (resume assets P wd w i p) = (if index p < length assets then index p + 1 else index p)"
    "workers (resume assets P wd w i p) =
       (workers p)[w := (if index p < length assets then Awaiting (index p) else Exited)]"
    by (auto simp: resume_def claim_def Let_def split: prod.splits option.splits)
  have "w \<in> set (awaiting p)" using 2(1,2) by simp
  then have w: "w < length (workers p)" "workers p ! w \<noteq> Exited" by (auto simp: awaiting_def)
  show ?case
  proof (cases "index p < length assets")
    case True
    have "?live ((workers p)[w := Awaiting (index p)]) = ?live (workers p)"
      using w by (auto simp: nth_list_update)
    then show ?thesis using True by (simp add: len fields)
  next
    case False
    have "?live ((workers p)[w := Exited]) = ?live (workers p) - {w}"
      using w by (auto simp: nth_list_update)
    moreover have "card (?live (workers p) - {w}) < card (?live (workers p))"
      using w by (intro card_Diff1_less) auto
    ultimately show ?thesis using False by (simp add: len fields)
  qed
qed

text \<open>\<^verbatim>\<open>downloadWithConcurrency\<close>, for an integer \<open>concurrency\<close>.\<close>

definition initial_pool :: pool where
  "initial_pool =
     \<lparr>index = 0, success = 0, skipped = 0, failed = 0, manifestUpdates = [],
      manifestRemovals = [], workers = [], completed = []\<rparr>"

definition worker_count :: "int \<Rightarrow> asset list \<Rightarrow> nat" where
  "worker_count concurrency assets =
     (let boundedConcurrency = max 1 concurrency
      in nat (min boundedConcurrency (int (length assets))))"

definition downloadWithConcurrency ::
  "(pool \<Rightarrow> nat) \<Rightarrow> asset list \<Rightarrow> int \<Rightarrow> download_params \<Rightarrow> world \<Rightarrow> pool" where
  "downloadWithConcurrency sched assets concurrency P wd =
     (if assets = [] then initial_pool
      else run_pool sched assets P wd (spawn assets (worker_count concurrency assets) initial_pool))"

text \<open>
  Notions used to state what the scheduler guarantees: the indices being downloaded,
  the number of downloads that returned a given outcome, the agreement of the manifest
  deltas with the log of returned downloads, and the invariant of the pool (no index is
  claimed twice, every index below \<open>index\<close> is being downloaded or done, a worker has
  left only once the list is exhausted, the counters agree with the log).
\<close>

definition awaited :: "pool \<Rightarrow> nat set" where
  "awaited p = {i. Awaiting i \<in> set (workers p)}"

definition tally :: "outcome \<Rightarrow> pool \<Rightarrow> nat" where
  "tally s p = length (filter (\<lambda>c. status (fst (snd c)) = s) (completed p))"

definition pool_log :: "asset list \<Rightarrow> download_params \<Rightarrow> world \<Rightarrow> pool \<Rightarrow> bool" where
  "pool_log assets P wd p \<longleftrightarrow>
     (\<forall>c \<in> set (completed p). fst c < length assets \<and> snd c = fetch_asset P wd (assets ! fst c))
     \<and> set (manifestRemovals p)
         = (\<lambda>c. cacheKey (assets ! fst c)) ` {c \<in> set (completed p). status (fst (snd c)) = Failed}
     \<and> fst ` set (manifestUpdates p)
         = (\<lambda>c. cacheKey (assets ! fst c)) ` {c \<in> set (completed p). result_metadata (fst (snd c)) \<noteq> None}"

definition pool_inv :: "asset list \<Rightarrow> pool \<Rightarrow> bool" where
  "pool_inv assets p \<longleftrightarrow>
     index p \<le> length assets
     \<and> distinct (map fst (completed p))
     \<and> fst ` set (completed p) \<union> awaited p = {0..<index p}
     \<and> fst ` set (completed p) \<inter> awaited p = {}
     \<and> (\<forall>w < length (workers p). \<forall>w' < length (workers p).
           workers p ! w = workers p ! w' \<and> workers p ! w \<noteq> Exited \<longrightarrow> w = w')
     \<and> (Exited \<in> set (workers p) \<longrightarrow> index p = length assets)
     \<and> success p = tally Downloaded p \<and> skipped p = tally Skipped p \<and> failed p = tally Failed p"

section \<open>The orchestrator\<close>

text \<open>
  The options of the plugin. \<open>cacheManifest\<close> is a file name or \<^verbatim>\<open>false\<close> (\<open>None\<close>);
  \<open>concurrency\<close> and \<open>maxRetries\<close> are integers, \<open>retryDelay\<close> is a number.
\<close>

record options =
  opt_enabled :: bool
  opt_publicDir :: string
  opt_mediaDir :: string
  opt_concurrency :: int
  opt_cacheManifest :: "string option"
  opt_skipUnchanged :: bool
  opt_rewriteContent :: bool
  opt_maxRetries :: int
  opt_retryDelay :: jsnum

text \<open>
  What \<^verbatim>\<open>JSON.parse\<close> may give for the manifest file: an object with its entries, or a
  value that is not a plain object. The code reads and writes properties of whatever it
  got: on \<^verbatim>\<open>null\<close> every access throws a \<^verbatim>\<open>TypeError\<close>; on a number, a string or a
  boolean a read gives \<^verbatim>\<open>undefined\<close> and an assignment throws (the module is strict
  code); an array takes the properties like an object but \<^verbatim>\<open>JSON.stringify\<close> leaves them
  out. A cache key contains a \<^verbatim>\<open>/\<close>, so it is never an index or \<^verbatim>\<open>length\<close>.
\<close>

datatype manifest_json = ManifestObject manifest | ManifestArray | ManifestPrimitive | ManifestNull

definition manifest_entries :: "manifest_json \<Rightarrow> manifest" where
  "manifest_entries j = (case j of ManifestObject m \<Rightarrow> m | _ \<Rightarrow> Map.empty)"

definition read_throws :: "manifest_json \<Rightarrow> bool" where
  "read_throws j = (case j of ManifestNull \<Rightarrow> True | _ \<Rightarrow> False)"

definition assign_throws :: "manifest_json \<Rightarrow> bool" where
  "assign_throws j = (case j of ManifestNull \<Rightarrow> True | ManifestPrimitive \<Rightarrow> True | _ \<Rightarrow> False)"

definition drops_entries :: "manifest_json \<Rightarrow> bool" where
  "drops_entries j = (case j of ManifestArray \<Rightarrow> True | _ \<Rightarrow> False)"

text \<open>
  What the build gives the plugin: the host's \<^verbatim>\<open>path\<close> module, the helpers imported from
  \<^verbatim>\<open>baukasten-utils\<close> seen through their results (\<open>kirbyUrl\<close> for \<^verbatim>\<open>getKirbyUrl()\<close>,
  \<open>projectRoot\<close> for \<^verbatim>\<open>getProjectRoot(import.meta.url)\<close>), the disk through what the reads
  give: the manifest file once parsed (\<open>None\<close> when it is missing or cannot be parsed),
  whether the content directory exists, and the files \<^verbatim>\<open>collectJsonFiles\<close> finds, each with
  what parsing it gives.
\<close>

record build_env =
  host_path :: path_module
  kirbyUrl :: "string option"
  projectRoot :: string
  manifest_file :: "manifest_json option"
  content_dir_exists :: bool
  json_files :: "(string \<times> json option) list"
  outside :: world
  scheduling :: "pool \<Rightarrow> nat"

text \<open>The paths computed at the start of \<^verbatim>\<open>netlifyHybridImagesSetup\<close>. An empty file name is
  falsy, like \<^verbatim>\<open>false\<close>.\<close>

definition public_dir :: "build_env \<Rightarrow> options \<Rightarrow> string" where
  "public_dir env opts = pm_resolve (host_path env) [projectRoot env, opt_publicDir opts]"

definition media_output_dir :: "build_env \<Rightarrow> options \<Rightarrow> string" where
  "media_output_dir env opts = pm_join (host_path env) [public_dir env opts, opt_mediaDir opts]"

definition manifest_path :: "build_env \<Rightarrow> options \<Rightarrow> string option" where
  "manifest_path env opts =
     (case opt_cacheManifest opts of
        None \<Rightarrow> None
      | Some name \<Rightarrow>
          if name = [] then None else Some (pm_join (host_path env) [media_output_dir env opts, name]))"

definition media_context_of :: "string \<Rightarrow> build_env \<Rightarrow> options \<Rightarrow> media_context" where
  "media_context_of url env opts =
     \<lparr>mediaPrefix = url @ ''/media/'', mediaDir = opt_mediaDir opts,
      mediaOutputDir = media_output_dir env opts\<rparr>"

text \<open>
  The two loops that apply the scheduler's deltas to the manifest, each with the flag
  \<^verbatim>\<open>manifestChanged\<close>. \<open>kind\<close> is what was loaded, the map the properties the manifest has
  in memory. The first loop reads and assigns a property, the second reads one and
  deletes it if it is there.
\<close>

fun apply_updates ::
  "manifest_json \<Rightarrow> (string \<times> metadata) list \<Rightarrow> manifest \<times> bool \<Rightarrow> js_error + manifest \<times> bool" where
  "apply_updates kind [] acc = Inr acc"
| "apply_updates kind ((key, data) # rest) (man, changed) =
     (if read_throws kind \<or> assign_throws kind then Inl TypeError
      else
        let previous = (case man key of None \<Rightarrow> Map.empty | Some e \<Rightarrow> e)
        in apply_updates kind rest (man(key \<mapsto> previous ++ data), True))"

fun apply_removals ::
  "manifest_json \<Rightarrow> string list \<Rightarrow> manifest \<times> bool \<Rightarrow> js_error + manifest \<times> bool" where
  "apply_removals kind [] acc = Inr acc"
| "apply_removals kind (key # rest) (man, changed) =
     (if read_throws kind then Inl TypeError
      else if man key \<noteq> None then apply_removals kind rest (man(key := None), True)
      else apply_removals kind rest (man, changed))"

text \<open>The transformer of the rewriting pass; it has no state.\<close>

definition rewrite_transformer ::
  "path_module \<Rightarrow> media_context \<Rightarrow> string \<Rightarrow> unit \<Rightarrow> (js_error + string) \<times> unit" where
  "rewrite_transformer host ctx v u =
     (case resolveMediaPath host v ctx of
        Inl e \<Rightarrow> (Inl e, u)
      | Inr None \<Rightarrow> (Inr v, u)
      | Inr (Some match) \<Rightarrow> (Inr (localPathWithQuery match), u))"

text \<open>
  The rewriting loop over \<^verbatim>\<open>fileEntries\<close>: the documents as they are in memory once the
  loop has handled them, and the files written, in order. A file is written when
  \<^verbatim>\<open>modified\<close> is set, with the document as it is in memory. An exception leaves the loop;
  the entries not reached keep their data.
\<close>

fun rewrite_entries ::
  "path_module \<Rightarrow> media_context \<Rightarrow> (string \<times> json) list
     \<Rightarrow> (js_error option) \<times> (string \<times> json) list \<times> (string \<times> json) list" where
  "rewrite_entries host ctx [] = (None, [], [])"
| "rewrite_entries host ctx ((path, data) # rest) =
     (case transformContent (rewrite_transformer host ctx) data () of
        (Inl e, u) \<Rightarrow> (Some e, (path, data) # rest, [])
      | (Inr (data', modified), u) \<Rightarrow>
          (let (err, docs, written) = rewrite_entries host ctx rest
           in (err, (path, data') # docs, (if modified then [(path, data')] else []) @ written)))"

datatype phase =
    Disabled
  | NoKirbyUrl
  | NoContentDir
  | NoJsonFiles
  | NoAssets
  | Aborted nat
  | Completed
  | Threw js_error

text \<open>
  What a run leaves behind: where it ended, the work list handed to the scheduler and
  the scheduler's final state, the entries of the manifest in memory and the manifest
  file written (if any) with the entries it holds, the documents in memory and the
  document files written.
\<close>

record run_result =
  ended :: phase
  work_list :: "asset list"
  downloads :: pool
  final_manifest :: manifest
  manifest_written :: "(string \<times> manifest) option"
  documents :: "(string \<times> json) list"
  document_writes :: "(string \<times> json) list"

definition nothing_done :: "phase \<Rightarrow> manifest \<Rightarrow> (string \<times> json) list \<Rightarrow> run_result" where
  "nothing_done ph man docs =
     \<lparr>ended = ph, work_list = [], downloads = initial_pool, final_manifest = man,
      manifest_written = None, documents = docs, document_writes = []\<rparr>"

text \<open>
  The block that applies the scheduler's deltas when a manifest path is configured: the
  entries afterwards and the file written, if the manifest changed; or the exception of
  one of the two loops. The file of a manifest that was loaded as an array holds no
  entry.
\<close>

definition update_manifest ::
  "string option \<Rightarrow> manifest_json \<Rightarrow> pool \<Rightarrow> js_error + manifest \<times> (string \<times> manifest) option" where
  "update_manifest manifestPath man downloadResult =
     (case manifestPath of
        None \<Rightarrow> Inr (manifest_entries man, None)
      | Some mp \<Rightarrow>
          (case apply_updates man (manifestUpdates downloadResult) (manifest_entries man, False) of
             Inl e \<Rightarrow> Inl e
           | Inr acc1 \<Rightarrow>
               (case apply_removals man (manifestRemovals downloadResult) acc1 of
                  Inl e \<Rightarrow> Inl e
                | Inr (m2, c2) \<Rightarrow>
                    Inr (m2, if c2 then Some (mp, if drops_entries man then Map.empty else m2)
                             else None))))"

text \<open>The end of the function, from the test \<^verbatim>\<open>downloadResult.failed > 0\<close> on.\<close>

definition finish_run ::
  "path_module \<Rightarrow> media_context \<Rightarrow> bool \<Rightarrow> (string \<times> json) list \<Rightarrow> asset list \<Rightarrow> pool
     \<Rightarrow> manifest \<times> (string \<times> manifest) option \<Rightarrow> run_result" where
  "finish_run host ctx rewrite fileEntries assets downloadResult mw =
     (let base = \<lparr>ended = Completed, work_list = assets, downloads = downloadResult,
                  final_manifest = fst mw, manifest_written = snd mw,
                  documents = fileEntries, document_writes = []\<rparr>
      in if failed downloadResult > 0
         then base\<lparr>ended := Aborted (failed downloadResult)\<rparr>
         else if rewrite then
           (let (err, docs, written) = rewrite_entries host ctx fileEntries
            in base\<lparr>ended := (case err of None \<Rightarrow> Completed | Some e \<Rightarrow> Threw e),
                    documents := docs, document_writes := written\<rparr>)
         else base)"

text \<open>A run that an exception of the manifest block ends: nothing is written after the
  downloads.\<close>

definition thrown_run ::
  "js_error \<Rightarrow> (string \<times> json) list \<Rightarrow> asset list \<Rightarrow> pool \<Rightarrow> manifest \<Rightarrow> run_result" where
  "thrown_run e fileEntries assets downloadResult man =
     \<lparr>ended = Threw e, work_list = assets, downloads = downloadResult, final_manifest = man,
      manifest_written = None, documents = fileEntries, document_writes = []\<rparr>"

text \<open>
  The manifest as loaded: the empty object the variable starts with when no manifest
  path is configured or the file cannot be read or parsed, what \<^verbatim>\<open>JSON.parse\<close> gave
  otherwise.
\<close>

definition loaded_manifest :: "build_env \<Rightarrow> options \<Rightarrow> manifest_json" where
  "loaded_manifest env opts =
     (case manifest_path env opts of
        None \<Rightarrow> ManifestObject Map.empty
      | Some mp \<Rightarrow> (case manifest_file env of None \<Rightarrow> ManifestObject Map.empty | Some j \<Rightarrow> j))"

text \<open>The arguments of the scheduler: \<^verbatim>\<open>options.maxRetries || 3\<close> replaces a zero,
  \<^verbatim>\<open>options.retryDelay || 1000\<close> a zero or NaN.\<close>

definition download_params_of :: "build_env \<Rightarrow> options \<Rightarrow> download_params" where
  "download_params_of env opts =
     \<lparr>p_maxRetries = (if opt_maxRetries opts = 0 then 3 else opt_maxRetries opts),
      p_retryDelay = (if js_falsy (opt_retryDelay opts) then Finite 1000 else opt_retryDelay opts),
      p_skipUnchanged = (opt_skipUnchanged opts \<and> manifest_path env opts \<noteq> None)\<rparr>"

text \<open>\<^verbatim>\<open>netlifyHybridImagesSetup\<close>. The cached entry of an asset is
  \<^verbatim>\<open>manifestPath && manifest ? manifest[key] || null : null\<close>: the entry of a manifest
  that is an object, nothing otherwise.\<close>

definition netlifyHybridImagesSetup :: "build_env \<Rightarrow> options \<Rightarrow> run_result" where
  "netlifyHybridImagesSetup env opts =
     (if \<not> opt_enabled opts then nothing_done Disabled Map.empty []
      else
        case kirbyUrl env of
          None \<Rightarrow> nothing_done NoKirbyUrl Map.empty []
        | Some url \<Rightarrow>
            if url = [] then nothing_done NoKirbyUrl Map.empty []
            else
              let ctx = media_context_of url env opts;
                  manifestPath = manifest_path env opts;
                  man = loaded_manifest env opts
              in if \<not> content_dir_exists env then nothing_done NoContentDir (manifest_entries man) []
                 else if json_files env = [] then nothing_done NoJsonFiles (manifest_entries man) []
                 else
                   let (assetMap, fileEntries) =
                         scan_files (host_path env) ctx
                           (case manifestPath of None \<Rightarrow> None | Some mp \<Rightarrow> Some (manifest_entries man))
                           (json_files env) ([], [])
                   in if assetMap = [] then nothing_done NoAssets (manifest_entries man) fileEntries
                      else
                        let assets = map snd assetMap;
                            downloadResult =
                              downloadWithConcurrency (scheduling env) assets (opt_concurrency opts)
                                (download_params_of env opts) (outside env)
                        in (case update_manifest manifestPath man downloadResult of
                              Inl e \<Rightarrow>
                                thrown_run e fileEntries assets downloadResult (manifest_entries man)
                            | Inr mw \<Rightarrow>
                                finish_run (host_path env) ctx (opt_rewriteContent opts) fileEntries
                                  assets downloadResult mw))"

section \<open>Example inputs\<close>

text \<open>The asset of the end-to-end scenario, with a cached entry whose validator is
  \<^verbatim>\<open>abc\<close>, and some behaviours of the origin.\<close>

definition example_asset :: asset where
  "example_asset =
     \<lparr>cacheKey = ''media/pages/home/hero.jpg'',
      remoteUrl = ''https://cms.example/media/pages/home/hero.jpg?w=400'',
      downloadUrl = ''https://cms.example/media/pages/home/hero.jpg'',
      filePath = ''/site/public/media/pages/home/hero.jpg'',
      localPath = ''/media/pages/home/hero.jpg'',
      localPathWithQuery = ''/media/pages/home/hero.jpg?w=400'',
      metadata = Some [''etag'' \<mapsto> Str ''abc'', ''size'' \<mapsto> Num 4]\<rparr>"

definition reply :: "nat \<Rightarrow> string \<Rightarrow> attempt_obs" where
  "reply code text =
     Responds \<lparr>http_status = code, statusText = text, etag_header = Some ''xyz'',
               last_modified_header = None\<rparr> (Inr ''data'')"

definition flaky_then_ok :: "int \<Rightarrow> attempt_obs" where
  "flaky_then_ok n = (if n = 3 then reply 200 ''OK'' else reply 503 ''Service Unavailable'')"

definition reset_404_then_ok :: "int \<Rightarrow> attempt_obs" where
  "reset_404_then_ok n = (if n = 1 then reply 404 ''ECONNRESET'' else reply 200 ''OK'')"

definition not_modified :: "int \<Rightarrow> attempt_obs" where
  "not_modified n = reply 304 ''Not Modified''"

definition example_clock :: "int \<Rightarrow> string" where
  "example_clock n = ''2025-10-16T00:00:0'' @ decimal (nat n) @ ''Z''"

text \<open>The defaults of \<^verbatim>\<open>plugins/netlify-hybrid-images/index.js\<close>, a project checked out at
  \<^verbatim>\<open>/site\<close>, and the resolver's context in that project for the origin
  \<^verbatim>\<open>https://cms.example\<close>.\<close>

definition default_options :: options where
  "default_options =
     \<lparr>opt_enabled = True, opt_publicDir = ''public'', opt_mediaDir = ''media'',
      opt_concurrency = 2, opt_cacheManifest = Some ''hybrid-images-manifest.json'',
      opt_skipUnchanged = True, opt_rewriteContent = True, opt_maxRetries = 3,
      opt_retryDelay = Finite 1000\<rparr>"

text \<open>The segment \<^verbatim>\<open>\..\<close>: a backslash and two dots. It is a plain file name for
  \<^verbatim>\<open>path.posix.normalize\<close> and a step upwards for the \<^verbatim>\<open>path\<close> module of a Windows host,
  where the backslash separates segments.\<close>

definition backslash_up :: string where
  "backslash_up = [CHR 0x5C, CHR ''.'', CHR ''.'']"

definition backslash_path :: string where
  "backslash_path = backslash_up @ ''/'' @ backslash_up @ ''/etc/passwd''"

text \<open>The resolver's context of the same project checked out at \<^verbatim>\<open>C:\site\<close> on a
  Windows host.\<close>

definition windows_media_dir :: string where
  "windows_media_dir = join_with [backslash] [''C:'', ''site'', ''public'', ''media'']"

definition windows_passwd :: string where
  "windows_passwd = join_with [backslash] [''C:'', ''site'', ''etc'', ''passwd'']"

definition windows_context :: media_context where
  "windows_context =
     \<lparr>mediaPrefix = ''https://cms.example/media/'', mediaDir = ''media'',
      mediaOutputDir = windows_media_dir\<rparr>"

definition example_context :: media_context where
  "example_context =
     \<lparr>mediaPrefix = ''https://cms.example/media/'', mediaDir = ''media'',
      mediaOutputDir = ''/site/public/media''\<rparr>"

definition logo_asset :: asset where
  "logo_asset =
     \<lparr>cacheKey = ''media/site/logo.svg'',
      remoteUrl = ''https://cms.example/media/site/logo.svg'',
      downloadUrl = ''https://cms.example/media/site/logo.svg'',
      filePath = ''/site/public/media/site/logo.svg'',
      localPath = ''/media/site/logo.svg'',
      localPathWithQuery = ''/media/site/logo.svg'',
      metadata = None\<rparr>"

definition example_params :: download_params where
  "example_params = \<lparr>p_maxRetries = 3, p_retryDelay = Finite 1000, p_skipUnchanged = True\<rparr>"

text \<open>
  The end-to-end scenario: one content file referring to one asset, an origin that
  answers every request with 200, and no manifest from an earlier build. In the second
  world the origin answers 404 for the logo and 200 for everything else.
\<close>

definition example_world :: world where
  "example_world =
     \<lparr>file_exists = (\<lambda>a. False), observes = (\<lambda>a n. reply 200 ''OK''),
      clock_at = (\<lambda>a. example_clock)\<rparr>"

definition home_json :: json where
  "home_json = JObject [(''hero'', JString ''https://cms.example/media/pages/home/hero.jpg?w=400'')]"

definition example_env :: build_env where
  "example_env =
     \<lparr>host_path = posix_path ''/site'', kirbyUrl = Some ''https://cms.example'',
      projectRoot = ''/site'', manifest_file = None, content_dir_exists = True,
      json_files = [(''/site/public/content/home.json'', Some home_json)],
      outside = example_world, scheduling = (\<lambda>p. 0)\<rparr>"

definition logo_missing_world :: world where
  "logo_missing_world =
     \<lparr>file_exists = (\<lambda>a. False),
      observes = (\<lambda>a n. if cacheKey a = ''media/site/logo.svg'' then reply 404 ''Not Found''
                         else reply 200 ''OK''),
      clock_at = (\<lambda>a. example_clock)\<rparr>"

definition about_json :: json where
  "about_json =
     JObject [(''title'', JString ''About''),
              (''images'', JArray [JString ''https://cms.example/media/pages/home/hero.jpg?w=400'',
                                   JString ''https://cms.example/media/site/logo.svg''])]"

definition logo_missing_env :: build_env where
  "logo_missing_env =
     \<lparr>host_path = posix_path ''/site'', kirbyUrl = Some ''https://cms.example'',
      projectRoot = ''/site'',
      manifest_file = Some (ManifestObject [''media/site/logo.svg'' \<mapsto> [''etag'' \<mapsto> Str ''old'']]),
      content_dir_exists = True,
      json_files = [(''/site/public/content/home.json'', Some home_json),
                    (''/site/public/content/about.json'', Some about_json)],
      outside = logo_missing_world, scheduling = (\<lambda>p. 1)\<rparr>"

section \<open>Properties of the path library\<close>

lemma split_on_not_Nil [simp]: "split_on c s \<noteq> []"
  by (induction s) (auto simp: Let_def)

lemma split_on_no_sep: "x \<in> set (split_on c s) \<Longrightarrow> c \<notin> set x"
proof (induction s arbitrary: x)
  case Nil
  then show ?case by simp
next
  case (Cons a s)
  have ne: "split_on c s \<noteq> []" by simp
  then obtain y ys where ys: "split_on c s = y # ys" by (cases "split_on c s") auto
  show ?case
  proof (cases "a = c")
    case True
    with Cons show ?thesis by (auto simp: Let_def)
  next
    case False
    with Cons.prems ys have "x = a # y \<or> x \<in> set ys" by (auto simp: Let_def)
    with Cons.IH ys False show ?thesis by auto
  qed
qed

lemma split_on_sep_free: "c \<notin> set s \<Longrightarrow> split_on c s = [s]"
  by (induction s) (auto simp: Let_def)

lemma split_on_append: "split_on c (a @ c # b) = split_on c a @ split_on c b"
proof (induction a)
  case Nil
  show ?case by (simp add: Let_def)
next
  case (Cons x a)
  obtain y ys where ys: "split_on c a = y # ys" by (cases "split_on c a") auto
  with Cons show ?case by (simp add: Let_def)
qed

lemma join_with_Cons: "ys \<noteq> [] \<Longrightarrow> join_with sep (x # ys) = x @ sep @ join_with sep ys"
  by (cases ys) auto

lemma split_on_join:
  "xs \<noteq> [] \<Longrightarrow> \<forall>x \<in> set xs. c \<notin> set x \<Longrightarrow> split_on c (join_with [c] xs) = xs"
proof (induction xs)
  case Nil
  then show ?case by simp
next
  case (Cons x xs)
  show ?case
  proof (cases "xs = []")
    case True
    with Cons.prems show ?thesis by (simp add: split_on_sep_free)
  next
    case False
    with Cons show ?thesis
      by (simp add: join_with_Cons split_on_append split_on_sep_free)
  qed
qed

lemma join_with_Nil_iff:
  "\<forall>x \<in> set xs. x \<noteq> [] \<Longrightarrow> join_with sep xs = [] \<longleftrightarrow> xs = []"
  by (induction sep xs rule: join_with.induct) auto

lemma hd_join_with:
  "xs \<noteq> [] \<Longrightarrow> hd xs \<noteq> [] \<Longrightarrow> hd (join_with sep xs) = hd (hd xs)"
  by (induction sep xs rule: join_with.induct) auto

lemma join_with_not_Nil: "xs \<noteq> [] \<Longrightarrow> hd xs \<noteq> [] \<Longrightarrow> join_with sep xs \<noteq> []"
  by (induction sep xs rule: join_with.induct) auto

lemma normal_stack_Nil [simp]: "normal_stack allow []"
  by (simp add: normal_stack_def)

lemma normalize_step_plain: "plain seg \<Longrightarrow> normalize_step allow st seg = st @ [seg]"
  by (simp add: normalize_step_def plain_def)

lemma normal_stack_step:
  assumes "normal_stack allow st" and "CHR ''/'' \<notin> set seg"
  shows "normal_stack allow (normalize_step allow st seg)"
proof -
  from assms(1) obtain k rest where st: "st = replicate k ''..'' @ rest"
    and rest: "\<forall>s \<in> set rest. plain s" and k: "\<not> allow \<longrightarrow> k = 0"
    by (auto simp: normal_stack_def)
  consider (skip) "seg = [] \<or> seg = ''.''" | (up) "seg = ''..''" | (name) "plain seg"
    using assms(2) by (auto simp: plain_def)
  then show ?thesis
  proof cases
    case skip
    then show ?thesis using assms(1) by (auto simp: normalize_step_def)
  next
    case name
    then have "normalize_step allow st seg = replicate k ''..'' @ (rest @ [seg])"
      by (simp add: normalize_step_plain st)
    moreover have "\<forall>s \<in> set (rest @ [seg]). plain s" using rest name by simp
    ultimately show ?thesis using k unfolding normal_stack_def by blast
  next
    case up
    show ?thesis
    proof (cases "rest = []")
      case True
      then have st': "st = replicate k ''..''" using st by simp
      then have "st = [] \<or> last st = ''..''" by (cases k) auto
      then have "normalize_step allow st seg = (if allow then replicate (Suc k) ''..'' @ [] else st)"
        using up st' by (auto simp: normalize_step_def replicate_append_same)
      then show ?thesis using assms(1) unfolding normal_stack_def
        by (metis empty_iff list.set(1))
    next
      case False
      then have "last st = last rest" "st \<noteq> []" using st by auto
      moreover have "last rest \<noteq> ''..''" using rest False by (auto simp: plain_def dest!: last_in_set)
      ultimately have "normalize_step allow st seg = replicate k ''..'' @ butlast rest"
        using up st False by (simp add: normalize_step_def butlast_append)
      moreover have "\<forall>s \<in> set (butlast rest). plain s" using rest by (auto dest: in_set_butlastD)
      ultimately show ?thesis using k unfolding normal_stack_def by blast
    qed
  qed
qed

lemma normal_stack_foldl:
  "normal_stack allow st \<Longrightarrow> \<forall>s \<in> set segs. CHR ''/'' \<notin> set s
   \<Longrightarrow> normal_stack allow (foldl (normalize_step allow) st segs)"
  by (induction segs arbitrary: st) (auto intro: normal_stack_step)

lemma normal_stack_normalize: "normal_stack allow (normalize_segments allow (split_on (CHR ''/'') p))"
  unfolding normalize_segments_def
  by (rule normal_stack_foldl) (auto dest: split_on_no_sep)

lemma foldl_step_skip:
  "\<forall>s \<in> set segs. s = [] \<or> s = ''.'' \<or> plain s \<Longrightarrow>
   foldl (normalize_step allow) st segs = st @ filter plain segs"
proof (induction segs arbitrary: st)
  case Nil
  show ?case by simp
next
  case (Cons s segs)
  then consider "s = [] \<or> s = ''.''" | "plain s" by auto
  then show ?case
  proof cases
    case 1
    then have "normalize_step allow st s = st" "\<not> plain s" by (auto simp: normalize_step_def plain_def)
    with Cons show ?thesis by simp
  next
    case 2
    with Cons show ?thesis by (simp add: normalize_step_plain)
  qed
qed


lemma foldl_step_ups:
  "foldl (normalize_step True) (replicate j ''..'') (replicate k ''..'') = replicate (j + k) ''..''"
proof (induction k arbitrary: j)
  case 0
  show ?case by simp
next
  case (Suc k)
  have "replicate j ''..'' = [] \<or> last (replicate j ''..'') = ''..''" by (cases j) auto
  then have "normalize_step True (replicate j ''..'') ''..'' = replicate (Suc j) ''..''"
    by (auto simp: normalize_step_def replicate_append_same)
  with Suc[of "Suc j"] show ?case by simp
qed


lemma normalize_segments_normal:
  assumes "normal_stack allow st"
  shows "normalize_segments allow st = st"
proof -
  from assms obtain k rest where st: "st = replicate k ''..'' @ rest"
    and rest: "\<forall>s \<in> set rest. plain s" and k: "\<not> allow \<longrightarrow> k = 0"
    by (auto simp: normal_stack_def)
  have ups: "foldl (normalize_step allow) [] (replicate k ''..'') = replicate k ''..''"
  proof (cases allow)
    case True
    then show ?thesis using foldl_step_ups[of 0 k] by simp
  next
    case False
    with k show ?thesis by simp
  qed
  have "filter plain rest = rest" using rest by (simp add: filter_id_conv)
  then show ?thesis
    unfolding normalize_segments_def st using ups rest by (simp add: foldl_step_skip)
qed


lemma normal_stack_elems:
  assumes "normal_stack allow st" and "s \<in> set st"
  shows "s \<noteq> [] \<and> s \<noteq> ''.'' \<and> CHR ''/'' \<notin> set s"
proof -
  from assms(1) obtain k rest where st: "st = replicate k ''..'' @ rest"
    and rest: "\<forall>s \<in> set rest. plain s"
    unfolding normal_stack_def by blast
  from assms(2) st have "s = ''..'' \<or> s \<in> set rest" by auto
  then show ?thesis
  proof
    assume "s = ''..''"
    then show ?thesis by simp
  next
    assume "s \<in> set rest"
    with rest have "plain s" by blast
    then show ?thesis unfolding plain_def by blast
  qed
qed

lemma normal_stack_up:
  "normal_stack allow st \<Longrightarrow> ''..'' \<in> set st \<Longrightarrow> allow \<and> st \<noteq> [] \<and> hd st = ''..''"
proof -
  assume a: "normal_stack allow st" "''..'' \<in> set st"
  then obtain k rest where st: "st = replicate k ''..'' @ rest"
    and rest: "\<forall>s \<in> set rest. plain s" and k: "\<not> allow \<longrightarrow> k = 0"
    by (auto simp: normal_stack_def)
  have "''..'' \<notin> set rest" using rest by (auto simp: plain_def)
  with a(2) st have "k \<noteq> 0" by (cases k) auto
  then obtain j where "k = Suc j" by (cases k) auto
  with st k show ?thesis by auto
qed



lemma split_on_wrapped:
  assumes "st \<noteq> []" and "\<forall>s \<in> set st. CHR ''/'' \<notin> set s"
  shows "split_on (CHR ''/'') ((if a then ''/'' else []) @ join_with ''/'' st @ (if t then ''/'' else []))
         = (if a then [[]] else []) @ st @ (if t then [[]] else [])"
proof -
  have j: "split_on (CHR ''/'') (join_with ''/'' st) = st"
    using assms by (simp add: split_on_join)
  have t: "split_on (CHR ''/'') (join_with ''/'' st @ (if t then ''/'' else [])) = st @ (if t then [[]] else [])"
    using j split_on_append[of "CHR ''/''" "join_with ''/'' st" "[]"] by simp
  show ?thesis
    using t split_on_append[of "CHR ''/''" "[]" "join_with ''/'' st @ (if t then ''/'' else [])"] by simp
qed


lemma posix_normalize_cases:
  assumes "p \<noteq> []"
  defines "st \<equiv> path_stack p"
  shows "(st = [] \<and> posix_normalize p = (if is_absolute p then ''/'' else if last p = CHR ''/'' then ''./'' else ''.''))
       \<or> (st \<noteq> [] \<and> posix_normalize p = (if is_absolute p then ''/'' else []) @ join_with ''/'' st @ (if last p = CHR ''/'' then ''/'' else []))"
proof -
  have n: "normal_stack (\<not> is_absolute p) st"
    unfolding st_def path_stack_def by (rule normal_stack_normalize)
  then have "\<forall>s \<in> set st. s \<noteq> []" by (auto dest: normal_stack_elems)
  then have "join_with ''/'' st = [] \<longleftrightarrow> st = []" by (rule join_with_Nil_iff)
  then show ?thesis
    using assms(1) unfolding st_def
    by (auto simp: posix_normalize_def normalizeString_def path_stack_def is_absolute_def Let_def)
qed

lemma normal_stack_path_stack: "normal_stack (\<not> is_absolute p) (path_stack p)"
  unfolding path_stack_def by (rule normal_stack_normalize)

lemma normal_stack_hd:
  assumes n: "normal_stack allow st" and ne: "st \<noteq> []"
  shows "hd st \<noteq> []" "hd (hd st) \<noteq> CHR ''/''"
proof -
  have "hd st \<in> set st" using ne by simp
  from normal_stack_elems[OF n this]
  have a: "hd st \<noteq> []" and b: "CHR ''/'' \<notin> set (hd st)" by blast+
  from a have "hd (hd st) \<in> set (hd st)" by (rule hd_in_set)
  with b show "hd (hd st) \<noteq> CHR ''/''" by metis
  from a show "hd st \<noteq> []" .
qed

lemma normal_stack_no_sep:
  assumes "normal_stack allow st"
  shows "\<forall>s \<in> set st. CHR ''/'' \<notin> set s"
  using normal_stack_elems[OF assms] by blast

lemma foldl_step_wrapped:
  "foldl (normalize_step b) [] ((if a then [[]] else []) @ st @ (if c then [[]] else []))
     = foldl (normalize_step b) [] st"
proof -
  have e: "normalize_step b r [] = r" for r by (simp add: normalize_step_def)
  show ?thesis by (cases a; cases c; simp add: e)
qed

lemma path_stack_trivial:
  "path_stack ''.'' = []" "path_stack ''./'' = []" "path_stack ''/'' = []" "path_stack [] = []"
  "\<not> is_absolute ''.''" "\<not> is_absolute ''./''" "is_absolute ''/''" "\<not> is_absolute []"
  by (simp_all add: path_stack_def is_absolute_def normalize_segments_def normalize_step_def)

lemma posix_normalize_invariant:
  "path_stack (posix_normalize p) = path_stack p \<and> is_absolute (posix_normalize p) = is_absolute p"
proof (cases "p = []")
  case True
  then show ?thesis by (simp add: posix_normalize_def path_stack_trivial)
next
  case False
  let ?st = "path_stack p"
  have n: "normal_stack (\<not> is_absolute p) ?st" by (rule normal_stack_path_stack)
  from posix_normalize_cases[OF False] show ?thesis
  proof (elim disjE conjE)
    assume "?st = []"
      and "posix_normalize p = (if is_absolute p then ''/'' else if last p = CHR ''/'' then ''./'' else ''.'')"
    then show ?thesis by (simp add: path_stack_trivial)
  next
    assume ne: "?st \<noteq> []"
      and eq: "posix_normalize p = (if is_absolute p then ''/'' else []) @ join_with ''/'' ?st @ (if last p = CHR ''/'' then ''/'' else [])"
    have hdj: "hd (join_with ''/'' ?st) = hd (hd ?st)" "join_with ''/'' ?st \<noteq> []"
      using ne normal_stack_hd(1)[OF n ne] by (simp_all add: hd_join_with join_with_not_Nil)
    have abs: "is_absolute (posix_normalize p) = is_absolute p"
      using hdj normal_stack_hd(2)[OF n ne] unfolding eq by (simp add: is_absolute_def)
    have sp: "split_on (CHR ''/'') (posix_normalize p)
              = (if is_absolute p then [[]] else []) @ ?st @ (if last p = CHR ''/'' then [[]] else [])"
      unfolding eq using ne normal_stack_no_sep[OF n] by (rule split_on_wrapped)
    have "path_stack (posix_normalize p) = foldl (normalize_step (\<not> is_absolute p)) [] ?st"
      unfolding path_stack_def[of "posix_normalize p"] normalize_segments_def abs sp
      by (rule foldl_step_wrapped)
    also have "\<dots> = ?st"
      using normalize_segments_normal[OF n] by (simp add: normalize_segments_def)
    finally show ?thesis using abs by simp
  qed
qed

lemma join_with_up_prefix:
  "st \<noteq> [] \<Longrightarrow> hd st = ''..'' \<Longrightarrow>
   join_with ''/'' st @ t = ''..'' @ t \<or> prefix ''../'' (join_with ''/'' st @ t)"
proof -
  assume "st \<noteq> []" "hd st = ''..''"
  then obtain st' where st: "st = ''..'' # st'" by (cases st) auto
  show ?thesis
  proof (cases "st' = []")
    case True
    with st show ?thesis by simp
  next
    case False
    then have "join_with ''/'' st = ''../'' @ join_with ''/'' st'"
      using st by (simp add: join_with_Cons)
    then show ?thesis by simp
  qed
qed

lemma normalized_segments_plain:
  assumes guard: "\<not> prefix ''../'' (posix_normalize d)" "posix_normalize d \<noteq> ''..''"
    and s: "s \<in> set (filter (\<lambda>s. s \<noteq> []) (split_on (CHR ''/'') (posix_normalize d)))"
  shows "s = ''.'' \<or> plain s"
proof (cases "d = []")
  case True
  with s show ?thesis by (simp add: posix_normalize_def)
next
  case False
  let ?st = "path_stack d"
  have n: "normal_stack (\<not> is_absolute d) ?st" by (rule normal_stack_path_stack)
  from posix_normalize_cases[OF False] show ?thesis
  proof (elim disjE conjE)
    assume "?st = []"
      and eq: "posix_normalize d = (if is_absolute d then ''/'' else if last d = CHR ''/'' then ''./'' else ''.'')"
    have "set (filter (\<lambda>s. s \<noteq> []) (split_on (CHR ''/'') (posix_normalize d))) \<subseteq> {''.''}"
      unfolding eq by auto
    with s show ?thesis by blast
  next
    assume ne: "?st \<noteq> []"
      and eq: "posix_normalize d = (if is_absolute d then ''/'' else []) @ join_with ''/'' ?st @ (if last d = CHR ''/'' then ''/'' else [])"
    have sp: "split_on (CHR ''/'') (posix_normalize d)
              = (if is_absolute d then [[]] else []) @ ?st @ (if last d = CHR ''/'' then [[]] else [])"
      unfolding eq using ne normal_stack_no_sep[OF n] by (rule split_on_wrapped)
    from s have sin: "s \<in> set ?st" unfolding sp by (auto split: if_splits)
    have "s \<noteq> ''..''"
    proof
      assume "s = ''..''"
      with sin have "''..'' \<in> set ?st" by simp
      from normal_stack_up[OF n this] have rel: "\<not> is_absolute d" and hd: "hd ?st = ''..''" by simp_all
      from join_with_up_prefix[OF ne hd, of "if last d = CHR ''/'' then ''/'' else []"]
      have "posix_normalize d = ''..'' @ (if last d = CHR ''/'' then ''/'' else []) \<or> prefix ''../'' (posix_normalize d)"
        unfolding eq using rel by simp
      with guard show False by (auto split: if_splits)
    qed
    moreover from normal_stack_elems[OF n sin] have "s \<noteq> []" "s \<noteq> ''.''" "CHR ''/'' \<notin> set s" by blast+
    ultimately show ?thesis unfolding plain_def by blast
  qed
qed

lemma dot_or_plain:
  assumes "s = ''.'' \<or> plain s"
  shows "s \<noteq> []" "CHR ''/'' \<notin> set s"
proof -
  from assms have "s \<noteq> [] \<and> CHR ''/'' \<notin> set s"
  proof
    assume "s = ''.''"
    then show ?thesis by simp
  next
    assume "plain s"
    then show ?thesis unfolding plain_def by blast
  qed
  then show "s \<noteq> []" "CHR ''/'' \<notin> set s" by blast+
qed

lemma posix_join_lies_under:
  assumes segs: "\<forall>s \<in> set segs. s = ''.'' \<or> plain s" and ne: "segs \<noteq> []"
  shows "lies_under dir (posix_join (dir # segs))"
proof -
  have nonempty: "\<forall>s \<in> set segs. s \<noteq> []" using segs dot_or_plain(1) by blast
  have nosep: "\<forall>s \<in> set segs. CHR ''/'' \<notin> set s" using segs dot_or_plain(2) by blast
  have skip: "\<forall>s \<in> set segs. s = [] \<or> s = ''.'' \<or> plain s" using segs by blast
  have keep: "filter (\<lambda>a. a \<noteq> []) segs = segs" using nonempty by (simp add: filter_id_conv)
  have sj: "split_on (CHR ''/'') (join_with ''/'' segs) = segs"
    using ne nosep by (simp add: split_on_join)
  show ?thesis
  proof (cases "dir = []")
    case True
    have pj: "posix_join (dir # segs) = posix_normalize (join_with ''/'' segs)"
      using True keep ne by (simp add: posix_join_def)
    have "hd segs \<in> set segs" using ne by simp
    then have h: "hd segs \<noteq> []" "CHR ''/'' \<notin> set (hd segs)" using nonempty nosep by blast+
    then have "hd (hd segs) \<in> set (hd segs)" by simp
    with h have "hd (hd segs) \<noteq> CHR ''/''" by metis
    then have "\<not> is_absolute (join_with ''/'' segs)"
      using ne h(1) by (simp add: is_absolute_def hd_join_with)
    then show ?thesis
      unfolding lies_under_def pj using True posix_normalize_invariant[of "join_with ''/'' segs"]
      by (simp add: path_stack_trivial)
  next
    case False
    have pj: "posix_join (dir # segs) = posix_normalize (dir @ ''/'' @ join_with ''/'' segs)"
      using False keep ne by (simp add: posix_join_def join_with_Cons)
    let ?x = "dir @ ''/'' @ join_with ''/'' segs"
    have abs: "is_absolute ?x = is_absolute dir" using False by (simp add: is_absolute_def)
    have "split_on (CHR ''/'') ?x = split_on (CHR ''/'') dir @ segs"
      using split_on_append[of "CHR ''/''" dir "join_with ''/'' segs"] sj by simp
    then have "path_stack ?x = foldl (normalize_step (\<not> is_absolute dir)) (path_stack dir) segs"
      unfolding path_stack_def abs normalize_segments_def by simp
    also have "\<dots> = path_stack dir @ filter plain segs"
      using skip by (rule foldl_step_skip)
    finally have "prefix (path_stack dir) (path_stack ?x)" by simp
    then show ?thesis
      unfolding lies_under_def pj using abs posix_normalize_invariant[of ?x] by simp
  qed
qed

lemma decode_passwd: "decodeURIComponent ''../../etc/passwd'' = Some ''../../etc/passwd''"
  by code_simp

lemma normalize_passwd: "posix_normalize ''../../etc/passwd'' = ''../../etc/passwd''"
  by code_simp

lemma split_passwd: "split_on (CHR ''?'') ''../../etc/passwd'' = [''../../etc/passwd'']"
  by code_simp

section \<open>Properties of the path resolver\<close>

text \<open>What the resolver does whatever the host: a decoded, normalised path that begins
  with \<^verbatim>\<open>../\<close> or is \<^verbatim>\<open>..\<close> gives \<^verbatim>\<open>null\<close>, and so does the prefix followed by
  \<^verbatim>\<open>../../etc/passwd\<close>.\<close>

lemma resolveMediaPath_rejects_escape:
  assumes "prefix (mediaPrefix ctx) url"
    and "decodeURIComponent (hd (split_on (CHR ''?'') (drop (length (mediaPrefix ctx)) url))) = Some d"
    and "prefix ''../'' (posix_normalize d) \<or> posix_normalize d = ''..''"
  shows "resolveMediaPath host url ctx = Inr None"
  using assms by (auto simp: resolveMediaPath_def Let_def)

lemma resolveMediaPath_rejects_passwd:
  "resolveMediaPath host (mediaPrefix ctx @ ''../../etc/passwd'') ctx = Inr None"
  unfolding resolveMediaPath_def Let_def
  by (simp add: split_passwd decode_passwd normalize_passwd)

text \<open>On a POSIX host the \<open>filePath\<close> of every result lies under the media output
  directory.\<close>

lemma resolveMediaPath_posix_contained:
  assumes r: "resolveMediaPath (posix_path cwd) url ctx = Inr (Some r)"
  shows "lies_under (mediaOutputDir ctx) (filePath r)"
proof -
  let ?raw = "hd (split_on (CHR ''?'') (drop (length (mediaPrefix ctx)) url))"
  from r obtain d where d: "decodeURIComponent ?raw = Some d"
    by (auto simp: resolveMediaPath_def Let_def split: if_splits option.splits)
  let ?segs = "filter (\<lambda>s. s \<noteq> []) (split_on (CHR ''/'') (posix_normalize d))"
  from r d have guard: "\<not> prefix ''../'' (posix_normalize d)" "posix_normalize d \<noteq> ''..''"
    and ne: "?segs \<noteq> []"
    and fp: "filePath r = posix_join (mediaOutputDir ctx # ?segs)"
    by (auto simp: resolveMediaPath_def posix_path_def Let_def split: if_splits)
  have "\<forall>s \<in> set ?segs. s = ''.'' \<or> plain s"
    using normalized_segments_plain[OF guard] by blast
  from posix_join_lies_under[OF this ne] show ?thesis
    unfolding fp .
qed

lemma split_backslash: "split_on (CHR ''?'') ''%5C../%5C../etc/passwd'' = [''%5C../%5C../etc/passwd'']"
  by code_simp

lemma decode_backslash:
  "decodeURIComponent ''%5C../%5C../etc/passwd''
   = Some backslash_path"
  by code_simp

lemma normalize_backslash:
  "posix_normalize backslash_path
   = backslash_path"
  by code_simp

lemma guards_backslash:
  "\<not> prefix ''../'' backslash_path"
  "\<not> sublist [CHR ''.'', CHR ''.'', CHR 0x5C] backslash_path"
  "backslash_path \<noteq> ''..''"
  by code_simp+

lemma segments_backslash:
  "filter (\<lambda>s. s \<noteq> []) (split_on (CHR ''/'') backslash_path)
   = [backslash_up, backslash_up, ''etc'', ''passwd'']"
  by code_simp

text \<open>
  Whatever the host, the resolver accepts the prefix followed by
  \<^verbatim>\<open>%5C../%5C../etc/passwd\<close>: the three guards pass, the segments are \<^verbatim>\<open>\..\<close>, \<^verbatim>\<open>\..\<close>,
  \<^verbatim>\<open>etc\<close> and \<^verbatim>\<open>passwd\<close>, and the \<open>filePath\<close> of the result is what the host's \<^verbatim>\<open>path.join\<close>
  makes of the media output directory and these segments.
\<close>

lemma resolveMediaPath_backslash_segments:
  "resolveMediaPath host (mediaPrefix ctx @ ''%5C../%5C../etc/passwd'') ctx
   = Inr (Some
       \<lparr>cacheKey = mediaDir ctx @ ''/'' @ join_with ''/'' [backslash_up, backslash_up, ''etc'', ''passwd''],
        remoteUrl = mediaPrefix ctx @ ''%5C../%5C../etc/passwd'',
        downloadUrl = mediaPrefix ctx @ ''%5C../%5C../etc/passwd'',
        filePath = pm_join host [mediaOutputDir ctx, backslash_up, backslash_up, ''etc'', ''passwd''],
        localPath = ''/'' @ join_with ''/'' [mediaDir ctx, backslash_up, backslash_up, ''etc'', ''passwd''],
        localPathWithQuery =
          ''/'' @ join_with ''/'' [mediaDir ctx, backslash_up, backslash_up, ''etc'', ''passwd'']\<rparr>)"
  unfolding resolveMediaPath_def Let_def
  using guards_backslash
  by (simp add: split_backslash decode_backslash normalize_backslash segments_backslash)

lemma win32_join_backslash:
  "win32_join [windows_media_dir, backslash_up, backslash_up, ''etc'', ''passwd''] = windows_passwd"
  by code_simp

lemma win32_outside_media:
  "\<not> win32_lies_under windows_media_dir windows_passwd"
  by code_simp

lemma win32_inside_media:
  "win32_lies_under windows_media_dir
     (win32_join [windows_media_dir, ''pages'', ''home'', ''hero.jpg''])"
  by code_simp

text \<open>
  Claim C3 at a failing input. On a Windows host, with the media output directory
  \<^verbatim>\<open>C:\site\public\media\<close>, the URL made of the prefix and \<^verbatim>\<open>%5C../%5C../etc/passwd\<close> is
  resolved, not rejected: each segment \<^verbatim>\<open>\..\<close> is a step upwards for \<^verbatim>\<open>path.join\<close>, and the
  \<open>filePath\<close> of the result is \<^verbatim>\<open>C:\site\etc\passwd\<close>, outside the media output directory.
\<close>

theorem resolveMediaPath_escapes_on_windows:
  "\<exists>r. resolveMediaPath (win32_path resolve)
          (mediaPrefix windows_context @ ''%5C../%5C../etc/passwd'') windows_context = Inr (Some r)
       \<and> filePath r = windows_passwd
       \<and> \<not> win32_lies_under (mediaOutputDir windows_context) (filePath r)"
  unfolding resolveMediaPath_backslash_segments
  using win32_outside_media
  by (simp add: win32_path_def windows_context_def win32_join_backslash)

section \<open>Properties of the fetcher\<close>

lemma loop_exhausted:
  "\<not> attempt \<le> maxRetries \<Longrightarrow>
   attempt_loop a h maxRetries retryDelay net clock attempt tr
     = (\<lparr>status = Failed, result_metadata = None\<rparr>, tr)"
  by simp

lemma loop_return:
  "attempt \<le> maxRetries \<Longrightarrow>
   try_block a maxRetries retryDelay attempt (clock attempt) (net attempt) = (Return res, w) \<Longrightarrow>
   attempt_loop a h maxRetries retryDelay net clock attempt tr
     = (res, tr\<lparr>requests := requests tr @ [h],
                 writes := writes tr @ (case w of None \<Rightarrow> [] | Some b \<Rightarrow> [b])\<rparr>)"
  by simp

lemma loop_retry:
  "attempt \<le> maxRetries \<Longrightarrow>
   try_block a maxRetries retryDelay attempt (clock attempt) (net attempt) = (Retry d, w) \<Longrightarrow>
   attempt_loop a h maxRetries retryDelay net clock attempt tr
     = attempt_loop a h maxRetries retryDelay net clock (attempt + 1)
         (tr\<lparr>requests := requests tr @ [h],
             writes := writes tr @ (case w of None \<Rightarrow> [] | Some b \<Rightarrow> [b]),
             sleeps := sleeps tr @ [d]\<rparr>)"
  by simp

declare attempt_loop.simps [simp del]

lemma try_503:
  "http_status r = 503 \<Longrightarrow> attempt < maxRetries \<Longrightarrow>
   try_block a maxRetries retryDelay attempt now (Responds r body)
     = (Retry (js_mul retryDelay (Finite attempt)), None)"
  by (simp add: try_block_def)

lemma round_double_exact:
  "\<bar>z\<bar> < 2 ^ 53 \<Longrightarrow> round_double z = Finite z"
  by (simp add: round_double_def)

lemma js_mul_exact:
  "\<bar>a * b\<bar> < 2 ^ 53 \<Longrightarrow> js_mul (Finite a) (Finite b) = Finite (a * b)"
  by (simp add: js_mul_def round_double_exact)

lemma backoff_delays_exact:
  assumes "1 \<le> z" and "2 * z \<le> 2147483647"
  shows "js_mul (Finite z) (Finite 1) = Finite z \<and> js_mul (Finite z) (Finite 2) = Finite (2 * z)"
proof -
  have "\<bar>z * 1\<bar> < 2 ^ 53" using assms by simp
  then have "js_mul (Finite z) (Finite 1) = Finite (z * 1)" by (rule js_mul_exact)
  moreover have "\<bar>z * 2\<bar> < 2 ^ 53" using assms by simp
  then have "js_mul (Finite z) (Finite 2) = Finite (z * 2)" by (rule js_mul_exact)
  ultimately show ?thesis by (simp add: mult.commute)
qed

lemma timer_ms_in_range:
  "1 \<le> z \<Longrightarrow> z \<le> 2147483647 \<Longrightarrow> timer_ms (Finite z) = z"
  by (simp add: timer_ms_def)

lemma try_200:
  "http_status r = 200 \<Longrightarrow>
   fst (try_block a maxRetries retryDelay attempt now (Responds r (Inr bytes))) = Return res
   \<Longrightarrow> status res = Downloaded"
  by (auto simp add: try_block_def)

lemma try_block_retry_no_write:
  "try_block a maxRetries retryDelay attempt now obs = (Retry d, w) \<Longrightarrow> w = None"
  by (auto simp: try_block_def catch_block_def Let_def split: attempt_obs.splits if_splits sum.splits)

lemma attempt_loop_reach:
  assumes "n = nat (k - attempt)" "attempt \<le> k" "k \<le> maxRetries"
    and "\<forall>j. attempt \<le> j \<and> j < k \<longrightarrow>
           (\<exists>d. fst (try_block a maxRetries retryDelay j (clock j) (net j)) = Retry d)"
    and "try_block a maxRetries retryDelay k (clock k) (net k) = (Return res, w)"
  shows "\<exists>sl. attempt_loop a h maxRetries retryDelay net clock attempt tr
          = (res, \<lparr>requests = requests tr @ replicate (Suc n) h,
                   sleeps = sleeps tr @ sl,
                   writes = writes tr @ (case w of None \<Rightarrow> [] | Some b \<Rightarrow> [b])\<rparr>)"
  using assms
proof (induction n arbitrary: attempt tr)
  case 0
  then have "attempt = k" by simp
  with 0 show ?case by (cases tr) (auto simp: loop_return intro!: exI[of _ "[]"])
next
  case (Suc n)
  then have lt: "attempt < k" and le: "attempt \<le> maxRetries" by simp_all
  with Suc.prems obtain d w' where
    tb: "try_block a maxRetries retryDelay attempt (clock attempt) (net attempt) = (Retry d, w')"
    by (metis order_refl prod.collapse)
  then have w': "w' = None" by (rule try_block_retry_no_write)
  let ?tr = "tr\<lparr>requests := requests tr @ [h], writes := writes tr @ [], sleeps := sleeps tr @ [d]\<rparr>"
  have "\<exists>sl. attempt_loop a h maxRetries retryDelay net clock (attempt + 1) ?tr
          = (res, \<lparr>requests = requests ?tr @ replicate (Suc n) h, sleeps = sleeps ?tr @ sl,
                   writes = writes ?tr @ (case w of None \<Rightarrow> [] | Some b \<Rightarrow> [b])\<rparr>)"
    using Suc.prems lt by (intro Suc.IH) auto
  then obtain sl where
    "attempt_loop a h maxRetries retryDelay net clock (attempt + 1) ?tr
       = (res, \<lparr>requests = requests ?tr @ replicate (Suc n) h, sleeps = sleeps ?tr @ sl,
                writes = writes ?tr @ (case w of None \<Rightarrow> [] | Some b \<Rightarrow> [b])\<rparr>)" ..
  then have "attempt_loop a h maxRetries retryDelay net clock attempt tr
       = (res, \<lparr>requests = requests tr @ replicate (Suc (Suc n)) h, sleeps = sleeps tr @ (d # sl),
                writes = writes tr @ (case w of None \<Rightarrow> [] | Some b \<Rightarrow> [b])\<rparr>)"
    using loop_retry[where clock = clock and net = net and attempt = attempt, OF le tb, of h tr] w' by (simp add: replicate_append_same)
  then show ?case by blast
qed

text \<open>
  Claim C4, as amended. When the first two attempts are answered 503 and the third 200,
  its body read and written without error, and \<open>maxRetries\<close> is at least 3,
  \<^verbatim>\<open>downloadAsset\<close> returns \<^verbatim>\<open>downloaded\<close> after exactly two sleeps, whose delays are the
  products \<open>retryDelay \<times> 1\<close> and \<open>retryDelay \<times> 2\<close> of the numbers. When \<open>retryDelay\<close> is an
  integer \<open>z\<close> with \<open>1 \<le> z\<close> and \<open>2 z \<le> 2 ^ 31 - 1\<close>, the delays are \<open>z\<close> and \<open>2 z\<close>, the timer
  waits exactly that long, and the second wait is longer than the first.
\<close>

theorem downloadAsset_backoff:
  assumes "3 \<le> maxRetries"
    and "net 1 = Responds r1 b1" and "http_status r1 = 503"
    and "net 2 = Responds r2 b2" and "http_status r2 = 503"
    and "net 3 = Responds r3 (Inr bytes)" and "http_status r3 = 200"
  shows "status (fst (downloadAsset a fileExists maxRetries retryDelay skipUnchanged net clock)) = Downloaded
       \<and> sleeps (snd (downloadAsset a fileExists maxRetries retryDelay skipUnchanged net clock))
           = [js_mul retryDelay (Finite 1), js_mul retryDelay (Finite 2)]
       \<and> (\<forall>z. retryDelay = Finite z \<and> 1 \<le> z \<and> 2 * z \<le> 2147483647 \<longrightarrow>
             sleeps (snd (downloadAsset a fileExists maxRetries retryDelay skipUnchanged net clock))
               = [Finite z, Finite (2 * z)]
             \<and> map timer_ms
                 (sleeps (snd (downloadAsset a fileExists maxRetries retryDelay skipUnchanged net clock)))
               = [z, 2 * z]
             \<and> z < 2 * z)"
proof -
  let ?h = "request_headers a fileExists skipUnchanged"
  let ?d1 = "js_mul retryDelay (Finite 1)" and ?d2 = "js_mul retryDelay (Finite 2)"
  have t1: "try_block a maxRetries retryDelay 1 (clock 1) (net 1) = (Retry ?d1, None)"
    using assms by (simp add: try_503)
  have t2: "try_block a maxRetries retryDelay 2 (clock 2) (net 2) = (Retry ?d2, None)"
    using assms by (simp add: try_503)
  obtain res where t3: "try_block a maxRetries retryDelay 3 (clock 3) (net 3) = (Return res, Some bytes)"
    and res: "status res = Downloaded"
    using assms by (simp add: try_block_def)
  have run: "downloadAsset a fileExists maxRetries retryDelay skipUnchanged net clock
        = (res, \<lparr>requests = [?h, ?h, ?h], sleeps = [?d1, ?d2], writes = [bytes]\<rparr>)"
    unfolding downloadAsset_def empty_trace_def
    using assms(1) t1 t2 t3
    by (simp add: loop_retry[where attempt = 1, simplified] loop_retry[where attempt = 2, simplified]
                  loop_return[where attempt = 3, simplified])
  have exact: "?d1 = Finite z \<and> ?d2 = Finite (2 * z) \<and> map timer_ms [?d1, ?d2] = [z, 2 * z] \<and> z < 2 * z"
    if z: "retryDelay = Finite z" "1 \<le> z" "2 * z \<le> 2147483647" for z
    using backoff_delays_exact[OF z(2,3)] z by (simp add: timer_ms_in_range)
  show ?thesis
    unfolding run using res exact by (auto simp: timer_ms_in_range)
qed

theorem downloadAsset_backoff_witness:
  "flaky_then_ok 1 = reply 503 ''Service Unavailable'' \<and> flaky_then_ok 3 = reply 200 ''OK''
   \<and> status (fst (downloadAsset example_asset True 3 (Finite 1000) True flaky_then_ok example_clock))
       = Downloaded
   \<and> sleeps (snd (downloadAsset example_asset True 3 (Finite 1000) True flaky_then_ok example_clock))
       = [Finite 1000, Finite 2000]
   \<and> map timer_ms
       (sleeps (snd (downloadAsset example_asset True 3 (Finite 1000) True flaky_then_ok example_clock)))
       = [1000, 2000]"
  using downloadAsset_backoff[of 3 flaky_then_ok _ "Inr ''data''" _ "Inr ''data''" _ "''data''"
          example_asset True "Finite 1000" True example_clock]
  by (simp add: flaky_then_ok_def reply_def js_mul_def round_double_def timer_ms_def)

text \<open>
  The delays do not strictly increase for every \<open>retryDelay\<close> that reaches \<^verbatim>\<open>downloadAsset\<close>.
  The orchestrator passes \<^verbatim>\<open>options.retryDelay || 1000\<close>, which lets every number but zero
  and NaN through. With the option \<open>-5\<close> the delays are \<open>-5\<close> and \<open>-10\<close>, and the timer waits
  1 ms both times. With the option \<open>2 ^ 31 - 1\<close> the delays are \<open>2 ^ 31 - 1\<close> and \<open>2 ^ 32 - 2\<close>,
  and the timer waits 1 ms the second time, less than the first.
\<close>

theorem backoff_not_increasing_counterexample:
  "p_retryDelay (download_params_of example_env (default_options\<lparr>opt_retryDelay := Finite (- 5)\<rparr>))
     = Finite (- 5)
   \<and> status (fst (downloadAsset example_asset True 3 (Finite (- 5)) True flaky_then_ok example_clock))
       = Downloaded
   \<and> sleeps (snd (downloadAsset example_asset True 3 (Finite (- 5)) True flaky_then_ok example_clock))
       = [Finite (- 5), Finite (- 10)]
   \<and> \<not> js_less (Finite (- 5)) (Finite (- 10))
   \<and> map timer_ms
       (sleeps (snd (downloadAsset example_asset True 3 (Finite (- 5)) True flaky_then_ok example_clock)))
       = [1, 1]
   \<and> p_retryDelay (download_params_of example_env (default_options\<lparr>opt_retryDelay := Finite 2147483647\<rparr>))
       = Finite 2147483647
   \<and> sleeps (snd (downloadAsset example_asset True 3 (Finite 2147483647) True flaky_then_ok example_clock))
       = [Finite 2147483647, Finite 4294967294]
   \<and> map timer_ms
       (sleeps (snd (downloadAsset example_asset True 3 (Finite 2147483647) True flaky_then_ok example_clock)))
       = [2147483647, 1]"
  by code_simp

text \<open>An infinite \<open>retryDelay\<close> passes the same test; both delays are then infinite and
  the timer waits 1 ms each time.\<close>

lemma backoff_infinite_delay:
  "p_retryDelay (download_params_of example_env (default_options\<lparr>opt_retryDelay := PosInf\<rparr>)) = PosInf
   \<and> sleeps (snd (downloadAsset example_asset True 3 PosInf True flaky_then_ok example_clock))
       = [PosInf, PosInf]
   \<and> map timer_ms
       (sleeps (snd (downloadAsset example_asset True 3 PosInf True flaky_then_ok example_clock)))
       = [1, 1]"
  by code_simp

text \<open>
  Claim C5 at a failing input. The error thrown for a 4xx answer carries the status
  text of the response, and the \<^verbatim>\<open>catch\<close> block classifies any error by searching its
  message: a 404 whose status text is \<^verbatim>\<open>ECONNRESET\<close> is slept on and retried, and the
  second attempt downloads the asset.
\<close>

theorem client_error_retried:
  "status (fst (downloadAsset example_asset True 3 (Finite 1000) True reset_404_then_ok example_clock)) = Downloaded
   \<and> sleeps (snd (downloadAsset example_asset True 3 (Finite 1000) True reset_404_then_ok example_clock)) = [Finite 1000]
   \<and> length (requests (snd (downloadAsset example_asset True 3 (Finite 1000) True reset_404_then_ok example_clock))) = 2"
  by code_simp

text \<open>What holds of a 4xx answer other than 429: it ends the download as \<^verbatim>\<open>failed\<close>,
  without metadata, sleep or further request, when the message built from it contains
  none of the four markers.\<close>

lemma client_error_terminal:
  assumes "attempt \<le> maxRetries" and "net attempt = Responds r body"
    and "400 \<le> http_status r" and "http_status r < 500" and "http_status r \<noteq> 429"
    and "\<not> sublist ''socket hang up'' (error_message (http_error r))"
    and "\<not> sublist ''ECONNRESET'' (error_message (http_error r))"
    and "\<not> sublist ''ETIMEDOUT'' (error_message (http_error r))"
    and "\<not> sublist ''ECONNREFUSED'' (error_message (http_error r))"
  shows "attempt_loop a h maxRetries retryDelay net clock attempt tr
         = (\<lparr>status = Failed, result_metadata = None\<rparr>, tr\<lparr>requests := requests tr @ [h]\<rparr>)"
proof -
  have "try_block a maxRetries retryDelay attempt (clock attempt) (net attempt)
        = (Return \<lparr>status = Failed, result_metadata = None\<rparr>, None)"
    using assms by (simp add: try_block_def catch_block_def http_error_def)
  from loop_return[where clock = clock and net = net and attempt = attempt, OF assms(1) this, of h tr]
  show ?thesis by (cases tr) simp
qed

text \<open>
  Claim C6. Let \<open>skipUnchanged\<close> be on, the local file exist and the cached entry hold a
  non-empty \<open>etag\<close>. Then every request of the download carries \<^verbatim>\<open>If-None-Match\<close> with that
  etag. If attempt \<open>k\<close> is reached (the attempts before it were retried) and is answered
  304, the outcome is \<^verbatim>\<open>skipped\<close>, nothing is written to the local file, and the metadata
  returned has \<open>checkedAt\<close> set to the time of that attempt and the prior \<open>etag\<close>,
  \<open>lastModified\<close> and \<open>size\<close>.
\<close>

theorem conditional_request_skips:
  assumes "skipUnchanged" and "fileExists"
    and "metadata a = Some m" and "m ''etag'' = Some (Str e)" and "e \<noteq> []"
    and "1 \<le> k" and "k \<le> maxRetries"
    and "\<forall>j. 1 \<le> j \<and> j < k \<longrightarrow>
           (\<exists>d. fst (try_block a maxRetries retryDelay j (clock j) (net j)) = Retry d)"
    and "net k = Responds r body" and "http_status r = 304"
  shows "status (fst (downloadAsset a fileExists maxRetries retryDelay skipUnchanged net clock)) = Skipped
       \<and> writes (snd (downloadAsset a fileExists maxRetries retryDelay skipUnchanged net clock)) = []
       \<and> length (requests (snd (downloadAsset a fileExists maxRetries retryDelay skipUnchanged net clock))) = nat k
       \<and> (\<forall>h \<in> set (requests (snd (downloadAsset a fileExists maxRetries retryDelay skipUnchanged net clock))).
             \<exists>hs. h = Some hs \<and> (''If-None-Match'', Str e) \<in> set hs)
       \<and> (\<exists>md. result_metadata (fst (downloadAsset a fileExists maxRetries retryDelay skipUnchanged net clock))
                 = Some md
              \<and> md ''checkedAt'' = Some (Str (clock k))
              \<and> md ''etag'' = m ''etag''
              \<and> md ''lastModified'' = m ''lastModified''
              \<and> md ''size'' = m ''size'')"
proof -
  let ?h = "request_headers a fileExists skipUnchanged"
  let ?res = "\<lparr>status = Skipped, result_metadata = Some (m(''checkedAt'' \<mapsto> Str (clock k)))\<rparr>"
  have tb: "try_block a maxRetries retryDelay k (clock k) (net k) = (Return ?res, None)"
    using assms by (simp add: try_block_def)
  have "\<exists>sl. attempt_loop a ?h maxRetries retryDelay net clock 1 empty_trace
          = (?res, \<lparr>requests = requests empty_trace @ replicate (Suc (nat (k - 1))) ?h,
                    sleeps = sleeps empty_trace @ sl,
                    writes = writes empty_trace @ (case None of None \<Rightarrow> [] | Some b \<Rightarrow> [b])\<rparr>)"
    using assms(6,7,8) tb by (intro attempt_loop_reach) auto
  then obtain sl where run:
    "downloadAsset a fileExists maxRetries retryDelay skipUnchanged net clock
       = (?res, \<lparr>requests = replicate (Suc (nat (k - 1))) ?h, sleeps = sl, writes = []\<rparr>)"
    by (auto simp: downloadAsset_def empty_trace_def)
  have hdr: "\<exists>hs. ?h = Some hs \<and> (''If-None-Match'', Str e) \<in> set hs"
    using assms(1-5) by (simp add: request_headers_def shouldUseConditional_def)
  have len: "Suc (nat (k - 1)) = nat k" using assms(6) by simp
  show ?thesis
    unfolding run using hdr len by simp
qed

theorem conditional_request_skips_witness:
  "metadata example_asset = Some [''etag'' \<mapsto> Str ''abc'', ''size'' \<mapsto> Num 4]
   \<and> not_modified 1 = reply 304 ''Not Modified''
   \<and> status (fst (downloadAsset example_asset True 3 (Finite 1000) True not_modified example_clock)) = Skipped
   \<and> writes (snd (downloadAsset example_asset True 3 (Finite 1000) True not_modified example_clock)) = []
   \<and> requests (snd (downloadAsset example_asset True 3 (Finite 1000) True not_modified example_clock))
       = [Some [(''If-None-Match'', Str ''abc'')]]"
  using conditional_request_skips[of True True example_asset "[''etag'' \<mapsto> Str ''abc'', ''size'' \<mapsto> Num 4]"
          "''abc''" 1 3 "Finite 1000" example_clock not_modified _ "Inr ''data''"]
  by (simp add: example_asset_def not_modified_def reply_def downloadAsset_def empty_trace_def
        attempt_loop.simps try_block_def request_headers_def shouldUseConditional_def)


section \<open>Properties of the scheduler\<close>

lemma resume_index:
  "index (resume assets P wd w i p) = (if index p < length assets then index p + 1 else index p)"
  by (auto simp: resume_def claim_def Let_def split: prod.splits option.splits)

lemma resume_workers:
  "workers (resume assets P wd w i p) =
     (workers p)[w := (if index p < length assets then Awaiting (index p) else Exited)]"
  by (auto simp: resume_def claim_def Let_def split: prod.splits option.splits)

lemma resume_completed:
  "completed (resume assets P wd w i p) = completed p @ [(i, fetch_asset P wd (assets ! i))]"
  by (auto simp: resume_def claim_def Let_def split: prod.splits option.splits)

lemma resume_counts:
  "success (resume assets P wd w i p) = success p + (if status (fst (fetch_asset P wd (assets ! i))) = Downloaded then 1 else 0)"
  "skipped (resume assets P wd w i p) = skipped p + (if status (fst (fetch_asset P wd (assets ! i))) = Skipped then 1 else 0)"
  "failed (resume assets P wd w i p) = failed p + (if status (fst (fetch_asset P wd (assets ! i))) = Failed then 1 else 0)"
  by (cases "status (fst (fetch_asset P wd (assets ! i)))";
      auto simp: resume_def claim_def Let_def split: prod.splits option.splits)+

lemma resume_removals:
  "manifestRemovals (resume assets P wd w i p) =
     (if status (fst (fetch_asset P wd (assets ! i))) = Failed
      then set_add (manifestRemovals p) (cacheKey (assets ! i)) else manifestRemovals p)"
  by (auto simp: resume_def claim_def Let_def split: prod.splits option.splits)

lemma resume_updates:
  "manifestUpdates (resume assets P wd w i p) =
     (case result_metadata (fst (fetch_asset P wd (assets ! i))) of
        None \<Rightarrow> manifestUpdates p
      | Some md \<Rightarrow> map_set (manifestUpdates p) (cacheKey (assets ! i))
                     (md(''remoteUrl'' \<mapsto> Str (remoteUrl (assets ! i)),
                         ''localPath'' \<mapsto> Str (localPath (assets ! i)))))"
  by (auto simp: resume_def claim_def Let_def split: prod.splits option.splits)


lemma set_list_update:
  "w < length ws \<Longrightarrow> set (ws[w := x]) = insert x {ws ! k | k. k < length ws \<and> k \<noteq> w}"
proof -
  assume w: "w < length ws"
  have "set (ws[w := x]) = {ws[w := x] ! k | k. k < length ws}"
    by (simp add: set_conv_nth)
  also have "\<dots> = insert x {ws ! k | k. k < length ws \<and> k \<noteq> w}"
  proof (intro set_eqI iffI)
    fix y assume "y \<in> {ws[w := x] ! k | k. k < length ws}"
    then obtain k where k: "k < length ws" "y = ws[w := x] ! k" by blast
    then show "y \<in> insert x {ws ! k | k. k < length ws \<and> k \<noteq> w}"
      by (cases "k = w") (auto simp: nth_list_update)
  next
    fix y assume "y \<in> insert x {ws ! k | k. k < length ws \<and> k \<noteq> w}"
    then consider "y = x" | k where "k < length ws" "k \<noteq> w" "y = ws ! k" by blast
    then show "y \<in> {ws[w := x] ! k | k. k < length ws}"
    proof cases
      case 1
      then have "y = ws[w := x] ! w" using w by simp
      with w show ?thesis by blast
    next
      case 2
      then have "y = ws[w := x] ! k" by simp
      with 2 show ?thesis by blast
    qed
  qed
  finally show ?thesis .
qed

lemma tally_append:
  "tally s (p\<lparr>completed := completed p @ [c]\<rparr>) = tally s p + (if status (fst (snd c)) = s then 1 else 0)"
  by (simp add: tally_def)

lemma tally_cong: "completed q = completed p \<Longrightarrow> tally s q = tally s p"
  by (simp add: tally_def)

lemma tally_total: "tally Downloaded p + tally Skipped p + tally Failed p = length (completed p)"
proof -
  have "length (filter (\<lambda>c. status (fst (snd c)) = Downloaded) cs)
        + length (filter (\<lambda>c. status (fst (snd c)) = Skipped) cs)
        + length (filter (\<lambda>c. status (fst (snd c)) = Failed) cs) = length cs"
    for cs :: "(nat \<times> download_result \<times> trace) list"
  proof (induction cs)
    case Nil
    show ?case by simp
  next
    case (Cons c cs)
    then show ?case by (cases "status (fst (snd c))") simp_all
  qed
  then show ?thesis by (simp add: tally_def)
qed

lemma pool_inv_resume:
  assumes inv: "pool_inv assets p"
    and w: "w < length (workers p)" and wi: "workers p ! w = Awaiting i"
  shows "pool_inv assets (resume assets P wd w i p)"
proof -
  let ?p' = "resume assets P wd w i p"
  let ?ws = "workers p"
  let ?n = "length assets"
  let ?C = "fst ` set (completed p)"
  let ?new = "if index p < ?n then Awaiting (index p) else Exited"
  from inv have idx: "index p \<le> ?n"
    and dist: "distinct (map fst (completed p))"
    and cover: "?C \<union> awaited p = {0..<index p}"
    and disj: "?C \<inter> awaited p = {}"
    and uniq: "\<And>k k'. k < length ?ws \<Longrightarrow> k' < length ?ws \<Longrightarrow> ?ws ! k = ?ws ! k'
                 \<Longrightarrow> ?ws ! k \<noteq> Exited \<Longrightarrow> k = k'"
    and exited: "Exited \<in> set ?ws \<Longrightarrow> index p = ?n"
    and counts: "success p = tally Downloaded p" "skipped p = tally Skipped p" "failed p = tally Failed p"
    unfolding pool_inv_def by blast+
  have iA: "i \<in> awaited p" using w wi unfolding awaited_def by (metis mem_Collect_eq nth_mem)
  then have i_lt: "i < index p" and i_notC: "i \<notin> ?C" using cover disj by auto
  have Csub: "?C \<subseteq> {0..<index p}" using cover by blast
  have ws': "workers ?p' = ?ws[w := ?new]" by (rule resume_workers)
  have set': "set (workers ?p') = insert ?new {?ws ! k | k. k < length ?ws \<and> k \<noteq> w}"
    unfolding ws' using w by (rule set_list_update)
  have others: "{j. Awaiting j \<in> {?ws ! k | k. k < length ?ws \<and> k \<noteq> w}} = awaited p - {i}"
  proof (intro set_eqI iffI)
    fix j assume "j \<in> {j. Awaiting j \<in> {?ws ! k | k. k < length ?ws \<and> k \<noteq> w}}"
    then obtain k where k: "k < length ?ws" "k \<noteq> w" "?ws ! k = Awaiting j" by auto
    then have "j \<in> awaited p" unfolding awaited_def by (metis mem_Collect_eq nth_mem)
    moreover have "j \<noteq> i" using uniq[OF k(1) w] k wi by auto
    ultimately show "j \<in> awaited p - {i}" by simp
  next
    fix j assume "j \<in> awaited p - {i}"
    then have "Awaiting j \<in> set ?ws" "j \<noteq> i" by (auto simp: awaited_def)
    then obtain k where k: "k < length ?ws" "?ws ! k = Awaiting j" by (auto simp: in_set_conv_nth)
    with wi \<open>j \<noteq> i\<close> have "k \<noteq> w" by auto
    with k have "Awaiting j = ?ws ! k \<and> k < length ?ws \<and> k \<noteq> w" by simp
    then show "j \<in> {j. Awaiting j \<in> {?ws ! k | k. k < length ?ws \<and> k \<noteq> w}}" by blast
  qed
  have aw': "awaited ?p' = (awaited p - {i}) \<union> (if index p < ?n then {index p} else {})"
  proof -
    have "awaited ?p' = {j. Awaiting j = ?new} \<union> {j. Awaiting j \<in> {?ws ! k | k. k < length ?ws \<and> k \<noteq> w}}"
      unfolding awaited_def set' by auto
    also have "{j. Awaiting j = ?new} = (if index p < ?n then {index p} else {})" by auto
    finally show ?thesis using others by auto
  qed
  have C': "fst ` set (completed ?p') = insert i ?C" by (simp add: resume_completed)
  have idx': "index ?p' = (if index p < ?n then index p + 1 else index p)" by (rule resume_index)
  have c1: "index ?p' \<le> ?n" using idx idx' by simp
  have c2: "distinct (map fst (completed ?p'))" using dist i_notC by (simp add: resume_completed)
  have c3: "fst ` set (completed ?p') \<union> awaited ?p' = {0..<index ?p'}"
  proof -
    have "insert i ?C \<union> (awaited p - {i}) = {0..<index p}" using cover iA by blast
    then have "fst ` set (completed ?p') \<union> awaited ?p'
               = {0..<index p} \<union> (if index p < ?n then {index p} else {})"
      unfolding C' aw' by blast
    also have "\<dots> = {0..<index ?p'}" unfolding idx' by auto
    finally show ?thesis .
  qed
  have c4: "fst ` set (completed ?p') \<inter> awaited ?p' = {}"
  proof -
    have "index p \<notin> insert i ?C" using Csub i_lt by auto
    moreover have "insert i ?C \<inter> (awaited p - {i}) = {}" using disj by blast
    ultimately show ?thesis unfolding C' aw' by auto
  qed
  have c5: "\<forall>k < length (workers ?p'). \<forall>k' < length (workers ?p').
              workers ?p' ! k = workers ?p' ! k' \<and> workers ?p' ! k \<noteq> Exited \<longrightarrow> k = k'"
  proof (intro allI impI)
    fix k k'
    assume k: "k < length (workers ?p')" and k': "k' < length (workers ?p')"
      and eq: "workers ?p' ! k = workers ?p' ! k' \<and> workers ?p' ! k \<noteq> Exited"
    have len: "k < length ?ws" "k' < length ?ws" using k k' by (simp_all add: ws')
    have fresh: "\<And>m. m < length ?ws \<Longrightarrow> ?ws ! m \<noteq> Awaiting (index p)"
    proof
      fix m assume "m < length ?ws" "?ws ! m = Awaiting (index p)"
      then have "index p \<in> awaited p" unfolding awaited_def by (metis mem_Collect_eq nth_mem)
      with cover show False by auto
    qed
    show "k = k'"
    proof (cases "k = w"; cases "k' = w")
      assume "k = w" "k' = w"
      then show ?thesis by simp
    next
      assume a: "k = w" "k' \<noteq> w"
      then have "workers ?p' ! k = ?new" "workers ?p' ! k' = ?ws ! k'" using w by (simp_all add: ws')
      with eq have "?ws ! k' = Awaiting (index p)" by (auto split: if_splits)
      with fresh[OF len(2)] show ?thesis by simp
    next
      assume a: "k \<noteq> w" "k' = w"
      then have "workers ?p' ! k' = ?new" "workers ?p' ! k = ?ws ! k" using w by (simp_all add: ws')
      with eq have "?ws ! k = Awaiting (index p)" by (auto split: if_splits)
      with fresh[OF len(1)] show ?thesis by simp
    next
      assume a: "k \<noteq> w" "k' \<noteq> w"
      then have e: "workers ?p' ! k = ?ws ! k" "workers ?p' ! k' = ?ws ! k'" by (simp_all add: ws')
      from eq have "?ws ! k = ?ws ! k'" "?ws ! k \<noteq> Exited" unfolding e by blast+
      with uniq[OF len] show ?thesis by blast
    qed
  qed
  have c6: "Exited \<in> set (workers ?p') \<longrightarrow> index ?p' = ?n"
  proof
    assume "Exited \<in> set (workers ?p')"
    then consider "Exited = ?new" | "Exited \<in> {?ws ! k | k. k < length ?ws \<and> k \<noteq> w}"
      unfolding set' by blast
    then show "index ?p' = ?n"
    proof cases
      case 1
      then have "\<not> index p < ?n" by (auto split: if_splits)
      with idx idx' show ?thesis by simp
    next
      case 2
      then have "Exited \<in> set ?ws" by (auto simp: in_set_conv_nth)
      from exited[OF this] idx' show ?thesis by simp
    qed
  qed
  have t: "tally s ?p' = tally s p + (if status (fst (fetch_asset P wd (assets ! i))) = s then 1 else 0)" for s
    by (simp add: tally_def resume_completed)
  have c7: "success ?p' = tally Downloaded ?p'" "skipped ?p' = tally Skipped ?p'" "failed ?p' = tally Failed ?p'"
    using counts by (simp_all add: t resume_counts)
  show ?thesis
    unfolding pool_inv_def using c1 c2 c3 c4 c5 c6 c7 by blast
qed

lemma map_set_keys: "fst ` set (map_set m k v) = insert k (fst ` set m)"
proof (cases "map_has m k")
  case True
  have "fst ` set (map (\<lambda>kv. if fst kv = k then (k, v) else kv) m) = fst ` set m"
    by (induction m) auto
  with True show ?thesis by (auto simp: map_set_def map_has_def)
next
  case False
  then show ?thesis by (simp add: map_set_def)
qed

lemma set_add_set: "set (set_add xs k) = insert k (set xs)"
  by (auto simp: set_add_def)

lemma pool_log_resume:
  assumes log: "pool_log assets P wd p" and i: "i < length assets"
  shows "pool_log assets P wd (resume assets P wd w i p)"
proof -
  let ?p' = "resume assets P wd w i p"
  let ?c = "(i, fetch_asset P wd (assets ! i))"
  let ?r = "fst (fetch_asset P wd (assets ! i))"
  let ?key = "\<lambda>c::nat \<times> download_result \<times> trace. cacheKey (assets ! fst c)"
  from log have a: "\<forall>c \<in> set (completed p). fst c < length assets \<and> snd c = fetch_asset P wd (assets ! fst c)"
    and rm: "set (manifestRemovals p) = ?key ` {c \<in> set (completed p). status (fst (snd c)) = Failed}"
    and up: "fst ` set (manifestUpdates p) = ?key ` {c \<in> set (completed p). result_metadata (fst (snd c)) \<noteq> None}"
    unfolding pool_log_def by blast+
  have comp: "set (completed ?p') = insert ?c (set (completed p))" by (simp add: resume_completed)
  have ins: "{c \<in> insert ?c S. Q c} = (if Q ?c then insert ?c {c \<in> S. Q c} else {c \<in> S. Q c})"
    for S and Q :: "nat \<times> download_result \<times> trace \<Rightarrow> bool"
    by auto
  have a': "\<forall>c \<in> set (completed ?p'). fst c < length assets \<and> snd c = fetch_asset P wd (assets ! fst c)"
    unfolding comp using a i by simp
  have rm': "set (manifestRemovals ?p') = ?key ` {c \<in> set (completed ?p'). status (fst (snd c)) = Failed}"
    unfolding comp ins by (simp add: resume_removals set_add_set rm)
  have up': "fst ` set (manifestUpdates ?p')
             = ?key ` {c \<in> set (completed ?p'). result_metadata (fst (snd c)) \<noteq> None}"
    unfolding comp ins
    by (cases "result_metadata ?r") (simp_all add: resume_updates map_set_keys up)
  show ?thesis unfolding pool_log_def using a' rm' up' by blast
qed

lemma spawn_fields:
  "index p + k \<le> length assets \<Longrightarrow>
   spawn assets k p = p\<lparr>index := index p + k, workers := workers p @ map Awaiting [index p..<index p + k]\<rparr>"
proof (induction k arbitrary: p)
  case 0
  show ?case by simp
next
  case (Suc k)
  let ?q = "p\<lparr>index := index p + 1, workers := workers p @ [Awaiting (index p)]\<rparr>"
  have lt: "index p < length assets" using Suc.prems by simp
  then have "spawn assets (Suc k) p = spawn assets k ?q"
    by (simp add: claim_def)
  also have "\<dots> = ?q\<lparr>index := index ?q + k, workers := workers ?q @ map Awaiting [index ?q..<index ?q + k]\<rparr>"
    using Suc.prems by (intro Suc.IH) simp
  also have "\<dots> = p\<lparr>index := index p + Suc k, workers := workers p @ map Awaiting [index p..<index p + Suc k]\<rparr>"
    by (simp add: upt_conv_Cons)
  finally show ?case .
qed

lemma worker_count_bounds:
  "assets \<noteq> [] \<Longrightarrow> 1 \<le> worker_count c assets \<and> worker_count c assets \<le> length assets"
  by (cases assets) (auto simp: worker_count_def Let_def)

lemma pool_inv_spawn:
  assumes "k \<le> length assets"
  shows "pool_inv assets (spawn assets k initial_pool)"
    and "pool_log assets P wd (spawn assets k initial_pool)"
    and "length (workers (spawn assets k initial_pool)) = k"
proof -
  have sp: "spawn assets k initial_pool = initial_pool\<lparr>index := k, workers := map Awaiting [0..<k]\<rparr>"
    using spawn_fields[of initial_pool k assets] assms by (simp add: initial_pool_def)
  have aw: "awaited (spawn assets k initial_pool) = {0..<k}"
    unfolding sp awaited_def by auto
  have uniq: "\<forall>w < k. \<forall>w' < k. map Awaiting [0..<k] ! w = map Awaiting [0..<k] ! w' \<longrightarrow> w = w'"
    by simp
  have noex: "Exited \<notin> set (map Awaiting [0..<k])" by auto
  show "pool_inv assets (spawn assets k initial_pool)"
    unfolding pool_inv_def aw unfolding sp using assms uniq noex
    by (simp add: initial_pool_def tally_def)
  show "pool_log assets P wd (spawn assets k initial_pool)"
    unfolding pool_log_def sp by (simp add: initial_pool_def)
  show "length (workers (spawn assets k initial_pool)) = k" by (simp add: sp)
qed

lemma awaiting_pick:
  assumes "awaiting p \<noteq> []"
  shows "awaiting p ! (m mod length (awaiting p)) < length (workers p)"
    and "workers p ! (awaiting p ! (m mod length (awaiting p))) \<noteq> Exited"
proof -
  have "awaiting p ! (m mod length (awaiting p)) \<in> set (awaiting p)" using assms by simp
  then show "awaiting p ! (m mod length (awaiting p)) < length (workers p)"
    and "workers p ! (awaiting p ! (m mod length (awaiting p))) \<noteq> Exited"
    by (auto simp: awaiting_def)
qed

lemma awaited_bound:
  "pool_inv assets p \<Longrightarrow> w < length (workers p) \<Longrightarrow> workers p ! w = Awaiting i \<Longrightarrow> i < length assets"
proof -
  assume inv: "pool_inv assets p" and w: "w < length (workers p)" "workers p ! w = Awaiting i"
  then have "i \<in> awaited p" unfolding awaited_def by (metis mem_Collect_eq nth_mem)
  moreover from inv have "awaited p \<subseteq> {0..<index p}" "index p \<le> length assets"
    unfolding pool_inv_def by blast+
  ultimately show ?thesis by auto
qed

lemma run_pool_done: "awaiting p = [] \<Longrightarrow> run_pool sched assets P wd p = p"
  by simp

lemma run_pool_step:
  "awaiting p \<noteq> [] \<Longrightarrow> workers p ! (awaiting p ! (sched p mod length (awaiting p))) = Awaiting i \<Longrightarrow>
   run_pool sched assets P wd p
     = run_pool sched assets P wd (resume assets P wd (awaiting p ! (sched p mod length (awaiting p))) i p)"
  by (subst run_pool.simps) (simp del: run_pool.simps)

declare run_pool.simps [simp del]

lemma run_pool_inv:
  "pool_inv assets p \<Longrightarrow> pool_log assets P wd p \<Longrightarrow>
   pool_inv assets (run_pool sched assets P wd p)
   \<and> pool_log assets P wd (run_pool sched assets P wd p)
   \<and> awaiting (run_pool sched assets P wd p) = []
   \<and> length (workers (run_pool sched assets P wd p)) = length (workers p)"
proof (induction sched assets P wd p rule: run_pool.induct)
  case (1 sched assets P wd p)
  show ?case
  proof (cases "awaiting p = []")
    case True
    with "1.prems" show ?thesis by (simp add: run_pool_done)
  next
    case False
    let ?w = "awaiting p ! (sched p mod length (awaiting p))"
    from awaiting_pick[OF False, of "sched p"]
    have w: "?w < length (workers p)" and live: "workers p ! ?w \<noteq> Exited" by simp_all
    then obtain i where wi: "workers p ! ?w = Awaiting i" by (cases "workers p ! ?w") auto
    let ?q = "resume assets P wd ?w i p"
    have q1: "pool_inv assets ?q" using "1.prems"(1) w wi by (rule pool_inv_resume)
    have q2: "pool_log assets P wd ?q"
      using "1.prems"(2) awaited_bound[OF "1.prems"(1) w wi] by (rule pool_log_resume)
    have len: "length (workers ?q) = length (workers p)" by (simp add: resume_workers)
    have step: "run_pool sched assets P wd p = run_pool sched assets P wd ?q"
      using False wi by (rule run_pool_step)
    from "1.IH"[OF False refl wi q1 q2] show ?thesis unfolding step len .
  qed
qed

lemma downloadWithConcurrency_summary:
  fixes assets sched c P wd
  defines "p \<equiv> downloadWithConcurrency sched assets c P wd"
  assumes "assets \<noteq> []"
  shows "pool_inv assets p" and "pool_log assets P wd p" and "awaiting p = []"
    and "length (workers p) = worker_count c assets"
proof -
  let ?k = "worker_count c assets"
  let ?p0 = "spawn assets ?k initial_pool"
  have k: "?k \<le> length assets" using worker_count_bounds[OF assms(2)] by simp
  have p: "p = run_pool sched assets P wd ?p0"
    unfolding p_def downloadWithConcurrency_def using assms(2) by simp
  from run_pool_inv[OF pool_inv_spawn(1)[OF k] pool_inv_spawn(2)[OF k], where sched = sched and P = P and wd = wd]
  show "pool_inv assets p" and "pool_log assets P wd p" and "awaiting p = []"
    and "length (workers p) = worker_count c assets"
    unfolding p using pool_inv_spawn(3)[OF k] by simp_all
qed

lemma all_exited: "awaiting p = [] \<Longrightarrow> w \<in> set (workers p) \<Longrightarrow> w = Exited"
proof -
  assume a: "awaiting p = []" and w: "w \<in> set (workers p)"
  from w obtain k where k: "k < length (workers p)" "workers p ! k = w" by (auto simp: in_set_conv_nth)
  have "k \<notin> set (awaiting p)" using a by simp
  with k show ?thesis by (auto simp: awaiting_def)
qed

lemma finished_pool:
  assumes inv: "pool_inv assets p" and fin: "awaiting p = []" and some: "workers p \<noteq> []"
  shows "index p = length assets" and "set (map fst (completed p)) = {0..<length assets}"
    and "length (completed p) = length assets"
proof -
  have ex: "Exited \<in> set (workers p)"
    using all_exited[OF fin, of "hd (workers p)"] some by (metis hd_in_set)
  with inv show idx: "index p = length assets" unfolding pool_inv_def by blast
  have "awaited p = {}"
    unfolding awaited_def using all_exited[OF fin] by blast
  with inv idx show cov: "set (map fst (completed p)) = {0..<length assets}"
    unfolding pool_inv_def by simp
  from inv have "distinct (map fst (completed p))" unfolding pool_inv_def by blast
  from distinct_card[OF this] cov show "length (completed p) = length assets" by simp
qed

text \<open>
  Claim C10. For every integer \<open>concurrency\<close>, every non-empty asset list, every world
  and every interleaving, \<^verbatim>\<open>downloadWithConcurrency\<close> returns (the model is a total
  function), having created \<open>min (max 1 concurrency) n\<close> workers, all of which have left
  their loop; every asset has been downloaded exactly once, and the three counters add
  up to \<open>n\<close>.
\<close>

theorem downloadWithConcurrency_total:
  assumes "assets \<noteq> []"
  shows "length (workers (downloadWithConcurrency sched assets concurrency P wd))
           = nat (min (max 1 concurrency) (int (length assets)))
       \<and> (\<forall>w \<in> set (workers (downloadWithConcurrency sched assets concurrency P wd)). w = Exited)
       \<and> distinct (map fst (completed (downloadWithConcurrency sched assets concurrency P wd)))
       \<and> set (map fst (completed (downloadWithConcurrency sched assets concurrency P wd)))
           = {0..<length assets}
       \<and> (\<forall>c \<in> set (completed (downloadWithConcurrency sched assets concurrency P wd)).
             snd c = fetch_asset P wd (assets ! fst c))
       \<and> success (downloadWithConcurrency sched assets concurrency P wd)
         + skipped (downloadWithConcurrency sched assets concurrency P wd)
         + failed (downloadWithConcurrency sched assets concurrency P wd) = length assets"
proof -
  let ?p = "downloadWithConcurrency sched assets concurrency P wd"
  note s = downloadWithConcurrency_summary[OF assms, where sched = sched and c = concurrency and P = P and wd = wd]
  have len: "length (workers ?p) = nat (min (max 1 concurrency) (int (length assets)))"
    using s(4) by (simp add: worker_count_def)
  have "1 \<le> worker_count concurrency assets" using worker_count_bounds[OF assms] by simp
  with s(4) have some: "workers ?p \<noteq> []" by auto
  note f = finished_pool[OF s(1) s(3) some]
  have ex: "\<forall>w \<in> set (workers ?p). w = Exited" using all_exited[OF s(3)] by blast
  have dist: "distinct (map fst (completed ?p))" using s(1) unfolding pool_inv_def by blast
  have res: "\<forall>c \<in> set (completed ?p). snd c = fetch_asset P wd (assets ! fst c)"
    using s(2) unfolding pool_log_def by blast
  have "success ?p + skipped ?p + failed ?p = length (completed ?p)"
    using s(1) tally_total[of ?p] unfolding pool_inv_def by simp
  with f(3) have sum: "success ?p + skipped ?p + failed ?p = length assets" by simp
  from len ex dist f(2) res sum show ?thesis by blast
qed

theorem downloadWithConcurrency_total_witness:
  "[example_asset, logo_asset] \<noteq> []
   \<and> length (workers (downloadWithConcurrency (\<lambda>p. 0) [example_asset, logo_asset] (- 3)
                        example_params logo_missing_world)) = 1
   \<and> success (downloadWithConcurrency (\<lambda>p. 0) [example_asset, logo_asset] (- 3)
                example_params logo_missing_world)
     + skipped (downloadWithConcurrency (\<lambda>p. 0) [example_asset, logo_asset] (- 3)
                  example_params logo_missing_world)
     + failed (downloadWithConcurrency (\<lambda>p. 0) [example_asset, logo_asset] (- 3)
                 example_params logo_missing_world) = 2"
  using downloadWithConcurrency_total[of "[example_asset, logo_asset]" "\<lambda>p. 0" "- 3"
          example_params logo_missing_world]
  by simp

section \<open>Properties of the traversal and of the orchestrator\<close>

lemma visit_state_inv:
  "\<forall>str s. I s \<longrightarrow> I (snd (f str s)) \<Longrightarrow> I (snd st) \<Longrightarrow> I (snd (snd (visit f v st)))"
  "\<forall>str s. I s \<longrightarrow> I (snd (f str s)) \<Longrightarrow> I (snd st) \<Longrightarrow> I (snd (snd (visit_items f xs st)))"
  "\<forall>str s. I s \<longrightarrow> I (snd (f str s)) \<Longrightarrow> I (snd st) \<Longrightarrow> I (snd (snd (visit_entries f kvs st)))"
proof (induction f v st and f xs st and f kvs st rule: visit_visit_items_visit_entries.induct)
  case (3 f str st)
  obtain res s' where fs: "f str (snd st) = (res, s')" by (cases "f str (snd st)")
  with "3.prems" have "I s'" by (metis snd_conv)
  with fs show ?case by (cases res) auto
next
  case (8 f x xs st)
  note step = "8.prems"(1)
  obtain res st1 where Pair: "visit f x st = (res, st1)" by (cases "visit f x st")
  with "8.IH"(1)[OF step "8.prems"(2)] have i1: "I (snd st1)" by simp
  show ?case
  proof (cases res)
    case (Inl e)
    with Pair i1 show ?thesis by simp
  next
    case (Inr vr)
    obtain v r where vr: "vr = (v, r)" by (cases vr)
    obtain m' s' where st1: "st1 = (m', s')" by (cases st1)
    from "8.IH"(2)[OF Pair[unfolded Inr vr, symmetric] refl refl st1[symmetric] step] i1 st1
    have "I (snd (snd (visit_items f xs (m' \<or> r, s'))))" by simp
    with Pair Inr vr st1 show ?thesis by (auto split: prod.splits sum.splits)
  qed
next
  case (10 f kv kvs st)
  note step = "10.prems"(1)
  obtain res st1 where Pair: "visit f (snd kv) st = (res, st1)" by (cases "visit f (snd kv) st")
  with "10.IH"(1)[OF step "10.prems"(2)] have i1: "I (snd st1)" by simp
  show ?case
  proof (cases res)
    case (Inl e)
    with Pair i1 show ?thesis by simp
  next
    case (Inr vr)
    obtain v r where vr: "vr = (v, r)" by (cases vr)
    obtain m' s' where st1: "st1 = (m', s')" by (cases st1)
    from "10.IH"(2)[OF Pair[unfolded Inr vr, symmetric] refl refl st1[symmetric] step] i1 st1
    have "I (snd (snd (visit_entries f kvs (m' \<or> r, s'))))" by simp
    with Pair Inr vr st1 show ?thesis by (auto split: prod.splits sum.splits)
  qed
qed (auto split: prod.splits sum.splits)

lemma visit_identity:
  "\<forall>str s t s'. f str s = (Inr t, s') \<longrightarrow> t = str \<Longrightarrow>
   visit f v st = (Inr (v', r), st') \<Longrightarrow> v' = v \<and> fst st' = fst st \<and> (r \<longrightarrow> fst st')"
  "\<forall>str s t s'. f str s = (Inr t, s') \<longrightarrow> t = str \<Longrightarrow>
   visit_items f xs st = (Inr xs', st') \<Longrightarrow> xs' = xs \<and> fst st' = fst st"
  "\<forall>str s t s'. f str s = (Inr t, s') \<longrightarrow> t = str \<Longrightarrow>
   visit_entries f kvs st = (Inr kvs', st') \<Longrightarrow> kvs' = kvs \<and> fst st' = fst st"
proof (induction f v st and f xs st and f kvs st arbitrary: v' r st' and xs' st' and kvs' st'
       rule: visit_visit_items_visit_entries.induct)
  case (3 f str st)
  obtain res s' where fs: "f str (snd st) = (res, s')" by (cases "f str (snd st)")
  with "3.prems"(2) obtain t where res: "res = Inr t" by (cases res) auto
  with fs "3.prems"(1) have "t = str" by blast
  with fs res "3.prems"(2) show ?case by auto
next
  case (8 f x xs st)
  note same = "8.prems"(1)
  from "8.prems"(2) obtain v r m' s' where v: "visit f x st = (Inr (v, r), (m', s'))"
    by (auto split: prod.splits sum.splits)
  from "8.IH"(1)[OF same v] have a: "v = x \<and> m' = fst st \<and> (r \<longrightarrow> m')" unfolding fst_conv by blast
  from "8.prems"(2) v obtain vs where vs: "visit_items f xs (m' \<or> r, s') = (Inr vs, st')" "xs' = v # vs"
    by (auto split: prod.splits sum.splits)
  from "8.IH"(2)[OF v[symmetric] refl refl refl same vs(1)] have "vs = xs" "fst st' = (m' \<or> r)" by auto
  with a vs show ?case by auto
next
  case (10 f kv kvs st)
  note same = "10.prems"(1)
  from "10.prems"(2) obtain v r m' s' where v: "visit f (snd kv) st = (Inr (v, r), (m', s'))"
    by (auto split: prod.splits sum.splits)
  from "10.IH"(1)[OF same v] have a: "v = snd kv \<and> m' = fst st \<and> (r \<longrightarrow> m')" unfolding fst_conv by blast
  from "10.prems"(2) v obtain vs where vs: "visit_entries f kvs (m' \<or> r, s') = (Inr vs, st')"
    "kvs' = (fst kv, v) # vs"
    by (auto split: prod.splits sum.splits)
  from "10.IH"(2)[OF v[symmetric] refl refl refl same vs(1)] have "vs = kvs" "fst st' = (m' \<or> r)" by auto
  with a vs show ?case by auto
qed (auto split: prod.splits sum.splits)

lemma apply_updates_error: "apply_updates kind us acc = Inl e \<Longrightarrow> e = TypeError"
  by (induction kind us acc rule: apply_updates.induct) (auto simp: Let_def split: if_splits)

lemma apply_removals_error: "apply_removals kind ks acc = Inl e \<Longrightarrow> e = TypeError"
  by (induction kind ks acc rule: apply_removals.induct) (auto split: if_splits)

lemma apply_updates_total:
  "\<not> assign_throws kind \<Longrightarrow> \<not> read_throws kind \<Longrightarrow> \<exists>acc'. apply_updates kind us acc = Inr acc'"
  by (induction kind us acc rule: apply_updates.induct) (auto simp: Let_def)

lemma apply_removals_total:
  "\<not> read_throws kind \<Longrightarrow> \<exists>acc'. apply_removals kind ks acc = Inr acc'"
  by (induction kind ks acc rule: apply_removals.induct) auto

lemma read_throws_assign_throws: "read_throws kind \<Longrightarrow> assign_throws kind"
  by (cases kind) (simp_all add: read_throws_def assign_throws_def)

lemma update_manifest_error: "update_manifest mp kind dl = Inl e \<Longrightarrow> e = TypeError"
  by (auto simp: update_manifest_def dest: apply_updates_error apply_removals_error
           split: option.splits sum.splits prod.splits)

lemma update_manifest_total:
  assumes "\<not> assign_throws kind"
  shows "\<exists>mw. update_manifest mp kind dl = Inr mw"
proof (cases mp)
  case None
  then show ?thesis by (simp add: update_manifest_def)
next
  case (Some p)
  from assms have nr: "\<not> read_throws kind" using read_throws_assign_throws by blast
  from apply_updates_total[OF assms nr] obtain acc1 where
    u: "apply_updates kind (manifestUpdates dl) (manifest_entries kind, False) = Inr acc1" by blast
  from apply_removals_total[OF nr] obtain acc2 where
    r: "apply_removals kind (manifestRemovals dl) acc1 = Inr acc2" by blast
  from Some u r show ?thesis by (cases acc2) (simp add: update_manifest_def)
qed

lemma setup_cases:
  "(\<exists>ph man docs. netlifyHybridImagesSetup env opts = nothing_done ph man docs)
   \<or> (\<exists>url assetMap fileEntries.
        scan_files (host_path env) (media_context_of url env opts)
          (case manifest_path env opts of None \<Rightarrow> None
           | Some mp \<Rightarrow> Some (manifest_entries (loaded_manifest env opts)))
          (json_files env) ([], []) = (assetMap, fileEntries)
        \<and> assetMap \<noteq> []
        \<and> ((\<exists>e. update_manifest (manifest_path env opts) (loaded_manifest env opts)
                   (downloadWithConcurrency (scheduling env) (map snd assetMap) (opt_concurrency opts)
                      (download_params_of env opts) (outside env)) = Inl e
                \<and> netlifyHybridImagesSetup env opts =
                    thrown_run e fileEntries (map snd assetMap)
                      (downloadWithConcurrency (scheduling env) (map snd assetMap) (opt_concurrency opts)
                         (download_params_of env opts) (outside env))
                      (manifest_entries (loaded_manifest env opts)))
           \<or> (\<exists>mw. update_manifest (manifest_path env opts) (loaded_manifest env opts)
                   (downloadWithConcurrency (scheduling env) (map snd assetMap) (opt_concurrency opts)
                      (download_params_of env opts) (outside env)) = Inr mw
                \<and> netlifyHybridImagesSetup env opts =
                    finish_run (host_path env) (media_context_of url env opts) (opt_rewriteContent opts)
                      fileEntries (map snd assetMap)
                      (downloadWithConcurrency (scheduling env) (map snd assetMap) (opt_concurrency opts)
                         (download_params_of env opts) (outside env))
                      mw)))"
proof (cases "opt_enabled opts")
  case False
  then show ?thesis by (auto simp: netlifyHybridImagesSetup_def)
next
  case en: True
  show ?thesis
  proof (cases "kirbyUrl env")
    case None
    with en show ?thesis by (auto simp: netlifyHybridImagesSetup_def)
  next
    case (Some url)
    let ?scan = "scan_files (host_path env) (media_context_of url env opts)
          (case manifest_path env opts of None \<Rightarrow> None
           | Some mp \<Rightarrow> Some (manifest_entries (loaded_manifest env opts)))
          (json_files env) ([], [])"
    obtain assetMap fileEntries where sc: "?scan = (assetMap, fileEntries)"
      by (cases ?scan) auto
    let ?dl = "downloadWithConcurrency (scheduling env) (map snd assetMap) (opt_concurrency opts)
                 (download_params_of env opts) (outside env)"
    let ?um = "update_manifest (manifest_path env opts) (loaded_manifest env opts) ?dl"
    show ?thesis
    proof (cases "url = [] \<or> \<not> content_dir_exists env \<or> json_files env = [] \<or> assetMap = []")
      case True
      with en Some sc have "\<exists>ph man docs. netlifyHybridImagesSetup env opts = nothing_done ph man docs"
        unfolding netlifyHybridImagesSetup_def Let_def by (simp split: if_splits) blast
      then show ?thesis by blast
    next
      case False
      show ?thesis
      proof (cases ?um)
        case (Inl e)
        with False en Some sc have "netlifyHybridImagesSetup env opts =
            thrown_run e fileEntries (map snd assetMap) ?dl (manifest_entries (loaded_manifest env opts))"
          unfolding netlifyHybridImagesSetup_def Let_def by simp
        with sc False Inl show ?thesis by blast
      next
        case (Inr mw)
        with False en Some sc have "netlifyHybridImagesSetup env opts =
            finish_run (host_path env) (media_context_of url env opts) (opt_rewriteContent opts)
              fileEntries (map snd assetMap) ?dl mw"
          unfolding netlifyHybridImagesSetup_def Let_def by simp
        with sc False Inr show ?thesis by blast
      qed
    qed
  qed
qed

lemma scan_transformer_same: "scan_transformer host ctx man str s = (Inr t, s') \<Longrightarrow> t = str"
  by (auto simp: scan_transformer_def split: sum.splits option.splits if_splits)

lemma scan_keeps_document:
  assumes "transformContent (scan_transformer host ctx man) d am = (Inr (d', m), am')"
  shows "d' = d"
proof -
  from assms obtain v' r st' where
    v: "visit (scan_transformer host ctx man) d (False, am) = (Inr (v', r), st')"
    and d': "d' = (case d of JString str \<Rightarrow> d | _ \<Rightarrow> v')"
    by (auto simp: transformContent_def split: prod.splits sum.splits)
  have "\<forall>str s t s'. scan_transformer host ctx man str s = (Inr t, s') \<longrightarrow> t = str"
    using scan_transformer_same by blast
  from visit_identity(1)[OF this v] have "v' = d" by simp
  with d' show ?thesis by (cases d) simp_all
qed

lemma scan_files_documents:
  "pd \<in> set (snd (scan_files host ctx man files acc)) \<Longrightarrow>
   pd \<in> set (snd acc) \<or> (fst pd, Some (snd pd)) \<in> set files"
proof (induction host ctx man files acc rule: scan_files.induct)
  case (1 host ctx man acc)
  then show ?case by simp
next
  case (2 host ctx man path fs acc)
  then show ?case by auto
next
  case (3 host ctx man path data fs assetMap fileEntries)
  obtain res am' where tc: "transformContent (scan_transformer host ctx man) data assetMap = (res, am')"
    by (cases "transformContent (scan_transformer host ctx man) data assetMap")
  show ?case
  proof (cases res)
    case (Inl e)
    with tc "3.prems" have "pd \<in> set (snd (scan_files host ctx man fs (am', fileEntries)))" by simp
    from "3.IH"(1)[OF tc[symmetric] Inl this] show ?thesis by auto
  next
    case (Inr dm)
    obtain d' m where dm: "dm = (d', m)" by (cases dm)
    from scan_keeps_document[OF tc[unfolded Inr dm]] have d': "d' = data" .
    from tc Inr dm "3.prems"
    have "pd \<in> set (snd (scan_files host ctx man fs (am', fileEntries @ [(path, d')])))" by simp
    from "3.IH"(2)[OF tc[symmetric] Inr dm[symmetric] this] d' show ?thesis by auto
  qed
qed

lemma nothing_done_fields:
  "failed (downloads (nothing_done ph man docs)) = 0"
  "completed (downloads (nothing_done ph man docs)) = []"
  "manifestUpdates (downloads (nothing_done ph man docs)) = []"
  "manifestRemovals (downloads (nothing_done ph man docs)) = []"
  "document_writes (nothing_done ph man docs) = []"
  "manifest_written (nothing_done ph man docs) = None"
  "final_manifest (nothing_done ph man docs) = man"
  "work_list (nothing_done ph man docs) = []"
  by (simp_all add: nothing_done_def initial_pool_def)

lemma finish_run_fields:
  "downloads (finish_run host ctx rw fe assets dl mw) = dl"
  "work_list (finish_run host ctx rw fe assets dl mw) = assets"
  "final_manifest (finish_run host ctx rw fe assets dl mw) = fst mw"
  "manifest_written (finish_run host ctx rw fe assets dl mw) = snd mw"
  by (simp_all add: finish_run_def Let_def split: prod.splits)

lemma finish_run_aborted:
  "0 < failed dl \<Longrightarrow>
   finish_run host ctx rw fe assets dl mw
     = \<lparr>ended = Aborted (failed dl), work_list = assets, downloads = dl, final_manifest = fst mw,
        manifest_written = snd mw, documents = fe, document_writes = []\<rparr>"
  by (simp add: finish_run_def)

text \<open>
  Claim C1. In every run in which the scheduler reports a failed asset, no document
  file is written and every document held in memory is the parsed content of its file:
  nothing has been rewritten. The run ends in the aborted state, or with the
  \<^verbatim>\<open>TypeError\<close> of the manifest block before that state is reached; it ends in the aborted
  state whenever the manifest loaded is an object or an array.
\<close>

theorem partial_failure_leaves_documents:
  assumes "0 < failed (downloads (netlifyHybridImagesSetup env opts))"
  shows "document_writes (netlifyHybridImagesSetup env opts) = []
       \<and> (ended (netlifyHybridImagesSetup env opts)
            = Aborted (failed (downloads (netlifyHybridImagesSetup env opts)))
          \<or> ended (netlifyHybridImagesSetup env opts) = Threw TypeError)
       \<and> (\<not> assign_throws (loaded_manifest env opts) \<longrightarrow>
            ended (netlifyHybridImagesSetup env opts)
              = Aborted (failed (downloads (netlifyHybridImagesSetup env opts))))
       \<and> (\<forall>pd \<in> set (documents (netlifyHybridImagesSetup env opts)).
             (fst pd, Some (snd pd)) \<in> set (json_files env))"
proof -
  from setup_cases[of env opts] show ?thesis
  proof (elim disjE exE conjE)
    fix ph man docs
    assume "netlifyHybridImagesSetup env opts = nothing_done ph man docs"
    with assms show ?thesis by (simp add: nothing_done_fields)
  next
    fix url :: string and assetMap :: asset_map and fileEntries :: "(string \<times> json) list"
      and e :: js_error
    let ?ctx = "media_context_of url env opts"
    let ?dl = "downloadWithConcurrency (scheduling env) (map snd assetMap) (opt_concurrency opts)
                 (download_params_of env opts) (outside env)"
    assume sc: "scan_files (host_path env) ?ctx
          (case manifest_path env opts of None \<Rightarrow> None
           | Some mp \<Rightarrow> Some (manifest_entries (loaded_manifest env opts)))
          (json_files env) ([], []) = (assetMap, fileEntries)"
      and um: "update_manifest (manifest_path env opts) (loaded_manifest env opts) ?dl = Inl e"
      and run: "netlifyHybridImagesSetup env opts =
            thrown_run e fileEntries (map snd assetMap) ?dl (manifest_entries (loaded_manifest env opts))"
    from update_manifest_error[OF um] have e: "e = TypeError" .
    have thr: "assign_throws (loaded_manifest env opts)"
      using update_manifest_total[of "loaded_manifest env opts" "manifest_path env opts" ?dl] um
      by auto
    have docs: "\<forall>pd \<in> set fileEntries. (fst pd, Some (snd pd)) \<in> set (json_files env)"
    proof
      fix pd assume "pd \<in> set fileEntries"
      then have "pd \<in> set (snd (scan_files (host_path env) ?ctx
          (case manifest_path env opts of None \<Rightarrow> None
           | Some mp \<Rightarrow> Some (manifest_entries (loaded_manifest env opts)))
          (json_files env) ([], [])))" unfolding sc by simp
      from scan_files_documents[OF this] show "(fst pd, Some (snd pd)) \<in> set (json_files env)" by simp
    qed
    show ?thesis
      unfolding run using docs e thr by (simp add: thrown_run_def)
  next
    fix url :: string and assetMap :: asset_map and fileEntries :: "(string \<times> json) list"
      and mw :: "manifest \<times> (string \<times> manifest) option"
    let ?ctx = "media_context_of url env opts"
    let ?dl = "downloadWithConcurrency (scheduling env) (map snd assetMap) (opt_concurrency opts)
                 (download_params_of env opts) (outside env)"
    assume sc: "scan_files (host_path env) ?ctx
          (case manifest_path env opts of None \<Rightarrow> None
           | Some mp \<Rightarrow> Some (manifest_entries (loaded_manifest env opts)))
          (json_files env) ([], []) = (assetMap, fileEntries)"
      and run: "netlifyHybridImagesSetup env opts =
            finish_run (host_path env) ?ctx (opt_rewriteContent opts) fileEntries (map snd assetMap) ?dl mw"
    from assms have f: "0 < failed ?dl" unfolding run by (simp add: finish_run_fields)
    have docs: "\<forall>pd \<in> set fileEntries. (fst pd, Some (snd pd)) \<in> set (json_files env)"
    proof
      fix pd assume "pd \<in> set fileEntries"
      then have "pd \<in> set (snd (scan_files (host_path env) ?ctx
          (case manifest_path env opts of None \<Rightarrow> None
           | Some mp \<Rightarrow> Some (manifest_entries (loaded_manifest env opts)))
          (json_files env) ([], [])))" unfolding sc by simp
      from scan_files_documents[OF this] show "(fst pd, Some (snd pd)) \<in> set (json_files env)" by simp
    qed
    show ?thesis
      unfolding run finish_run_aborted[OF f] using docs by simp
  qed
qed

theorem partial_failure_leaves_documents_witness:
  "0 < failed (downloads (netlifyHybridImagesSetup logo_missing_env default_options))
   \<and> document_writes (netlifyHybridImagesSetup logo_missing_env default_options) = []
   \<and> ended (netlifyHybridImagesSetup logo_missing_env default_options) = Aborted 1
   \<and> success (downloads (netlifyHybridImagesSetup logo_missing_env default_options)) = 1"
proof -
  have f: "failed (downloads (netlifyHybridImagesSetup logo_missing_env default_options)) = 1"
    by code_simp
  have s: "success (downloads (netlifyHybridImagesSetup logo_missing_env default_options)) = 1"
    by code_simp
  have m: "\<not> assign_throws (loaded_manifest logo_missing_env default_options)"
    by code_simp
  from f have "0 < failed (downloads (netlifyHybridImagesSetup logo_missing_env default_options))"
    by simp
  from partial_failure_leaves_documents[OF this] f s m show ?thesis by simp
qed

text \<open>The same build with a manifest file that holds \<^verbatim>\<open>null\<close>: the removal of the failed
  asset's entry throws, no manifest and no document is written.\<close>

lemma null_manifest_run_throws:
  "failed (downloads (netlifyHybridImagesSetup (logo_missing_env\<lparr>manifest_file := Some ManifestNull\<rparr>)
                        default_options)) = 1
   \<and> ended (netlifyHybridImagesSetup (logo_missing_env\<lparr>manifest_file := Some ManifestNull\<rparr>)
               default_options) = Threw TypeError
   \<and> manifest_written (netlifyHybridImagesSetup (logo_missing_env\<lparr>manifest_file := Some ManifestNull\<rparr>)
                          default_options) = None
   \<and> document_writes (netlifyHybridImagesSetup (logo_missing_env\<lparr>manifest_file := Some ManifestNull\<rparr>)
                         default_options) = []"
  by code_simp

section \<open>Properties of the orchestrator's paths and of the rewriter\<close>

text \<open>
  Claim C2 at a failing input. With the plugin's default options in a project at
  \<^verbatim>\<open>/site\<close>, the public directory is \<^verbatim>\<open>/site/public\<close> and the manifest path is computed
  by joining the manifest's name to the media output directory: it lies inside the
  public directory.
\<close>

theorem manifest_inside_public_dir:
  "public_dir example_env default_options = ''/site/public''
   \<and> manifest_path example_env default_options = Some ''/site/public/media/hybrid-images-manifest.json''
   \<and> lies_under ''/site/public'' ''/site/public/media/hybrid-images-manifest.json''"
  by code_simp

text \<open>
  Claim C9 at a failing input. The query kept is the piece between the first and the
  second \<^verbatim>\<open>?\<close>: a URL whose query is \<^verbatim>\<open>w=400?h=200\<close> is rewritten with \<^verbatim>\<open>w=400\<close> only.
\<close>

theorem rewrite_truncates_query:
  "rewrite_entries (posix_path ''/site'') example_context
     [(''/site/public/content/home.json'',
       JObject [(''hero'', JString ''https://cms.example/media/pages/home/hero.jpg?w=400?h=200'')])]
   = (None,
      [(''/site/public/content/home.json'', JObject [(''hero'', JString ''/media/pages/home/hero.jpg?w=400'')])],
      [(''/site/public/content/home.json'', JObject [(''hero'', JString ''/media/pages/home/hero.jpg?w=400'')])])"
  by code_simp

end
